theory Spec2Isabelle
  imports Main "HOL-Library.Word" "HOL-Library.Sublist"
begin

unbundle bit_operations_syntax

section \<open>The Qt library: strings, regular expressions, flags\<close>

text \<open>
  A \<open>QString\<close> is a sequence of code units; one \<open>char\<close> stands for one code unit.
  A null and an empty \<open>QString\<close> behave alike in every operation used here, so both are
  the empty list.  The conversions from the C strings of the tree (\<open>ctmbstr\<close>) to
  \<open>QString\<close> are the identity.
\<close>

type_synonym QString = string

datatype CaseSensitivity = CaseInsensitive | CaseSensitive

datatype PatternSyntax = RegExp | Wildcard

text \<open>
  Two parts of Qt are parameters of the development: the case folding of a code unit that
  the case-insensitive comparisons apply to both sides, and the search of \<open>QRegExp\<close>
  (\<open>QString::contains(QRegExp)\<close>: pattern syntax, case sensitivity, pattern, subject).
\<close>

record qt_lib =
  foldCase :: "char \<Rightarrow> char"
  rxContains :: "PatternSyntax \<Rightarrow> CaseSensitivity \<Rightarrow> QString \<Rightarrow> QString \<Rightarrow> bool"

definition fold_with :: "qt_lib \<Rightarrow> CaseSensitivity \<Rightarrow> QString \<Rightarrow> QString" where
  "fold_with L cs s = (case cs of CaseSensitive \<Rightarrow> s | CaseInsensitive \<Rightarrow> map (foldCase L) s)"

text \<open>\<open>a.compare(b, cs) == 0\<close>\<close>
definition QString_compare_eq :: "qt_lib \<Rightarrow> QString \<Rightarrow> QString \<Rightarrow> CaseSensitivity \<Rightarrow> bool" where
  "QString_compare_eq L a b cs = (fold_with L cs a = fold_with L cs b)"

text \<open>\<open>a.contains(b, cs)\<close>\<close>
definition QString_contains :: "qt_lib \<Rightarrow> QString \<Rightarrow> QString \<Rightarrow> CaseSensitivity \<Rightarrow> bool" where
  "QString_contains L a b cs = sublist (fold_with L cs b) (fold_with L cs a)"

text \<open>\<open>a.startsWith(b, cs)\<close>\<close>
definition QString_startsWith :: "qt_lib \<Rightarrow> QString \<Rightarrow> QString \<Rightarrow> CaseSensitivity \<Rightarrow> bool" where
  "QString_startsWith L a b cs = prefix (fold_with L cs b) (fold_with L cs a)"

text \<open>\<open>a.endsWith(b, cs)\<close>\<close>
definition QString_endsWith :: "qt_lib \<Rightarrow> QString \<Rightarrow> QString \<Rightarrow> CaseSensitivity \<Rightarrow> bool" where
  "QString_endsWith L a b cs = suffix (fold_with L cs b) (fold_with L cs a)"

text \<open>The enum \<open>QHtmlParser::MatchFlag\<close> with its values, and \<open>QFlags<MatchFlag>\<close>,
  which stores an \<open>int\<close>.\<close>

datatype MatchFlag =
  MatchExactly | MatchContains | MatchStartsWith | MatchEndsWith | MatchRegExp
  | MatchWildcard | MatchCaseSensitive

type_synonym MatchFlags = "32 word"

fun flagValue :: "MatchFlag \<Rightarrow> MatchFlags" where
  "flagValue MatchExactly = 0x0000"
| "flagValue MatchContains = 0x0001"
| "flagValue MatchStartsWith = 0x0002"
| "flagValue MatchEndsWith = 0x0004"
| "flagValue MatchRegExp = 0x0008"
| "flagValue MatchWildcard = 0x0010"
| "flagValue MatchCaseSensitive = 0x0020"

datatype MatchType = MatchAll | MatchAny

text \<open>\<open>QFlags::testFlag\<close> of Qt:
  \<open>return (i & f) == f && (f != 0 || i == f)\<close>.\<close>

definition QFlags_testFlag :: "MatchFlags \<Rightarrow> MatchFlag \<Rightarrow> bool" where
  "QFlags_testFlag i flag =
     (let f = flagValue flag in (i AND f) = f \<and> (f \<noteq> 0 \<or> i = f))"

section \<open>Attributes and match criteria\<close>

record QHtmlAttribute =
  m_name :: QString
  m_value :: QString

record QHtmlAttributeMatch = QHtmlAttribute +
  m_flags :: MatchFlags

definition testFlag :: "QHtmlAttributeMatch \<Rightarrow> MatchFlag \<Rightarrow> bool" where
  "testFlag match flag = QFlags_testFlag (m_flags match) flag"

definition caseOf :: "QHtmlAttributeMatch \<Rightarrow> CaseSensitivity" where
  "caseOf match = (if testFlag match MatchCaseSensitive then CaseSensitive else CaseInsensitive)"

definition matchAttribute :: "qt_lib \<Rightarrow> QString \<Rightarrow> QHtmlAttributeMatch \<Rightarrow> bool" where
  "matchAttribute L v match =
     (if testFlag match MatchExactly then
        QString_compare_eq L v (m_value match) (caseOf match)
      else if testFlag match MatchContains then
        QString_contains L v (m_value match) (caseOf match)
      else if testFlag match MatchStartsWith then
        (let matches = QString_startsWith L v (m_value match) (caseOf match) in
         if matches \<and> testFlag match MatchEndsWith then
           QString_endsWith L v (m_value match) (caseOf match)
         else matches)
      else if testFlag match MatchEndsWith then
        QString_endsWith L v (m_value match) (caseOf match)
      else if testFlag match MatchRegExp then
        rxContains L RegExp (caseOf match) (m_value match) v
      else if testFlag match MatchWildcard then
        rxContains L Wildcard (caseOf match) (m_value match) v
      else False)"

section \<open>The tree of the normalizer (libtidy)\<close>

text \<open>
  The normalizer hands out a tree of nodes linked by parent, first-child, next and previous
  pointers.  The tree is a value here; a node handle (\<open>TidyNode\<close>) is the tree together
  with the path of child indices from its root, so that two handles are equal exactly when
  they point at the same node of the same tree.  A null handle is \<open>None\<close>.
  \<open>nodeText\<close> is what \<open>tidyNodeGetText\<close> prints for the node; an attribute value may be
  a null pointer.
\<close>

datatype TidyNodeType =
  TidyNode_Root | TidyNode_DocType | TidyNode_Comment | TidyNode_ProcIns | TidyNode_Text
  | TidyNode_Start | TidyNode_End | TidyNode_StartEnd | TidyNode_CDATA | TidyNode_Section
  | TidyNode_Asp | TidyNode_Jste | TidyNode_Php | TidyNode_XmlDecl

datatype TidyAttr = TidyAttr (tidyAttrName: QString) (tidyAttrValue: "QString option")

datatype tnode =
  TNode (nodeType: TidyNodeType) (nodeName: QString) (attrs: "TidyAttr list")
    (nodeText: QString) (content: "tnode list")

type_synonym TidyNode = "tnode \<times> nat list"

fun subtree :: "tnode \<Rightarrow> nat list \<Rightarrow> tnode option" where
  "subtree n [] = Some n"
| "subtree n (i # p) = (if i < length (content n) then subtree (content n ! i) p else None)"

definition deref :: "TidyNode \<Rightarrow> tnode option" where
  "deref node = subtree (fst node) (snd node)"

definition tidyGetChild :: "TidyNode \<Rightarrow> TidyNode option" where
  "tidyGetChild node =
     (case deref node of
        None \<Rightarrow> None
      | Some n \<Rightarrow> if content n = [] then None else Some (fst node, snd node @ [0]))"

definition tidyGetParent :: "TidyNode \<Rightarrow> TidyNode option" where
  "tidyGetParent node =
     (if snd node = [] \<or> deref node = None then None
      else Some (fst node, butlast (snd node)))"

definition tidyGetNext :: "TidyNode \<Rightarrow> TidyNode option" where
  "tidyGetNext node =
     (if snd node = [] \<or> deref node = None then None
      else let sibling = (fst node, butlast (snd node) @ [Suc (last (snd node))])
           in if deref sibling = None then None else Some sibling)"

definition tidyGetPrev :: "TidyNode \<Rightarrow> TidyNode option" where
  "tidyGetPrev node =
     (if snd node = [] \<or> deref node = None \<or> last (snd node) = 0 then None
      else Some (fst node, butlast (snd node) @ [last (snd node) - 1]))"

text \<open>The accessors below are only ever applied to handles that point at a node.\<close>

definition tidyNodeGetType :: "TidyNode \<Rightarrow> TidyNodeType" where
  "tidyNodeGetType node = nodeType (the (deref node))"

definition tidyNodeGetName :: "TidyNode \<Rightarrow> QString" where
  "tidyNodeGetName node = nodeName (the (deref node))"

text \<open>The attributes of a node, in the order \<open>tidyAttrFirst\<close>/\<open>tidyAttrNext\<close> enumerate them.\<close>
definition tidyAttrs :: "TidyNode \<Rightarrow> TidyAttr list" where
  "tidyAttrs node = attrs (the (deref node))"

section \<open>The static helpers of qhtmlparser.cpp\<close>

fun nodeAttribute_loop :: "TidyAttr list \<Rightarrow> QString \<Rightarrow> QString option" where
  "nodeAttribute_loop [] name = None"
| "nodeAttribute_loop (attr # rest) name =
     (if tidyAttrName attr = name then tidyAttrValue attr else nodeAttribute_loop rest name)"

definition nodeAttribute :: "TidyNode \<Rightarrow> QString \<Rightarrow> QString option" where
  "nodeAttribute node name = nodeAttribute_loop (tidyAttrs node) name"

fun matchAll_loop :: "qt_lib \<Rightarrow> TidyNode \<Rightarrow> QHtmlAttributeMatch list \<Rightarrow> bool" where
  "matchAll_loop L node [] = True"
| "matchAll_loop L node (match # rest) =
     (case nodeAttribute node (m_name match) of
        None \<Rightarrow> False
      | Some v \<Rightarrow> if \<not> matchAttribute L v match then False else matchAll_loop L node rest)"

fun matchAny_loop :: "qt_lib \<Rightarrow> TidyNode \<Rightarrow> QHtmlAttributeMatch list \<Rightarrow> bool" where
  "matchAny_loop L node [] = False"
| "matchAny_loop L node (match # rest) =
     (case nodeAttribute node (m_name match) of
        None \<Rightarrow> matchAny_loop L node rest
      | Some v \<Rightarrow> if matchAttribute L v match then True else matchAny_loop L node rest)"

definition matchAttributes ::
    "qt_lib \<Rightarrow> TidyNode \<Rightarrow> QHtmlAttributeMatch list \<Rightarrow> MatchType \<Rightarrow> bool" where
  "matchAttributes L node matches matchType =
     (if matchType = MatchAll then matchAll_loop L node matches
      else matchAny_loop L node matches)"

definition isStart :: "TidyNodeType \<Rightarrow> bool" where
  "isStart ty = (ty = TidyNode_Start \<or> ty = TidyNode_StartEnd)"

subsection \<open>Termination of the walks\<close>

fun tsize :: "tnode \<Rightarrow> nat" where
  "tsize (TNode ty nm as tx ks) = Suc (sum_list (map tsize ks))"

definition remaining :: "TidyNode option \<Rightarrow> nat" where
  "remaining h =
     (case h of
        None \<Rightarrow> 0
      | Some node \<Rightarrow>
          (if snd node = [] then Suc (tsize (fst node))
           else case subtree (fst node) (butlast (snd node)) of
                  None \<Rightarrow> 1
                | Some par \<Rightarrow> Suc (sum_list (map tsize (drop (last (snd node)) (content par))))))"

lemma subtree_append:
  "subtree t (p @ q) = (case subtree t p of None \<Rightarrow> None | Some n \<Rightarrow> subtree n q)"
  by (induction p arbitrary: t) auto

lemma subtree_snoc:
  "subtree t (p @ [i]) =
     (case subtree t p of
        None \<Rightarrow> None
      | Some n \<Rightarrow> if i < length (content n) then Some (content n ! i) else None)"
  by (simp add: subtree_append split: option.splits)

lemma tsize_content: "tsize n = Suc (sum_list (map tsize (content n)))"
  by (cases n) simp

lemma tsize_pos: "0 < tsize n"
  by (cases n) simp

lemma sum_drop_nth:
  "i < length ks \<Longrightarrow>
     sum_list (map tsize (drop i ks)) = tsize (ks ! i) + sum_list (map tsize (drop (Suc i) ks))"
  by (simp add: Cons_nth_drop_Suc [symmetric])

lemma remaining_child: "remaining (tidyGetChild c) < remaining (Some c)"
proof (cases "tidyGetChild c")
  case None
  then show ?thesis by (simp add: remaining_def split: option.splits)
next
  case (Some d)
  obtain t p where c: "c = (t, p)" by (cases c)
  from Some c obtain n where n: "subtree t p = Some n" "content n \<noteq> []" "d = (t, p @ [0])"
    by (auto simp: tidyGetChild_def deref_def split: option.splits if_splits)
  have d: "remaining (Some d) = tsize n"
    using n by (simp add: remaining_def tsize_content [of n])
  show ?thesis
  proof (cases "p = []")
    case True
    with n c d Some show ?thesis by (simp add: remaining_def)
  next
    case False
    then have p: "p = butlast p @ [last p]" by simp
    from n(1) obtain par where par: "subtree t (butlast p) = Some par"
      "last p < length (content par)" "content par ! last p = n"
      by (subst (asm) p) (auto simp: subtree_snoc split: option.splits if_splits)
    then show ?thesis
      using False c d Some by (simp add: remaining_def sum_drop_nth)
  qed
qed

lemma remaining_next: "remaining (tidyGetNext c) < remaining (Some c)"
proof (cases "tidyGetNext c")
  case None
  then show ?thesis by (simp add: remaining_def split: option.splits)
next
  case (Some d)
  obtain t p where c: "c = (t, p)" by (cases c)
  from Some c have p: "p \<noteq> []" and v: "subtree t p \<noteq> None"
    and d: "d = (t, butlast p @ [Suc (last p)])"
    by (auto simp: tidyGetNext_def deref_def Let_def split: if_splits)
  from p have pp: "p = butlast p @ [last p]" by simp
  from v obtain par where par: "subtree t (butlast p) = Some par"
      "last p < length (content par)"
    by (subst (asm) pp) (auto simp: subtree_snoc split: option.splits if_splits)
  then show ?thesis
    using p c d Some by (simp add: remaining_def sum_drop_nth tsize_pos)
qed

subsection \<open>The walks\<close>

text \<open>
  Each \<open>for (child = first; child; child = tidyGetNext(child))\<close> loop is a function of the
  loop variable.  In \<open>childStartNode\<close> the source calls itself on every child that is not a
  start node and discards the result; the call has no effect and is left out.
\<close>

function childStartNode_loop :: "TidyNode option \<Rightarrow> TidyNode option" where
  "childStartNode_loop None = None"
| "childStartNode_loop (Some child) =
     (if isStart (tidyNodeGetType child) then Some child
      else childStartNode_loop (tidyGetNext child))"
  by pat_completeness auto
termination
  by (relation "measure remaining") (auto simp: remaining_next)

definition childStartNode :: "TidyNode \<Rightarrow> TidyNode option" where
  "childStartNode node = childStartNode_loop (tidyGetChild node)"

function previousSiblingStartNode_loop :: "TidyNode option \<Rightarrow> TidyNode option" where
  "previousSiblingStartNode_loop None = None"
| "previousSiblingStartNode_loop (Some sibling) =
     (if isStart (tidyNodeGetType sibling) then Some sibling
      else previousSiblingStartNode_loop (tidyGetPrev sibling))"
  by pat_completeness auto
termination
  by (relation "measure (\<lambda>h. case h of None \<Rightarrow> 0 | Some node \<Rightarrow> Suc (last (snd node)))")
    (auto simp: tidyGetPrev_def split: if_splits)

definition previousSiblingStartNode :: "TidyNode \<Rightarrow> TidyNode option" where
  "previousSiblingStartNode node = previousSiblingStartNode_loop (tidyGetPrev node)"

function nextSiblingStartNode_loop :: "TidyNode option \<Rightarrow> TidyNode option" where
  "nextSiblingStartNode_loop None = None"
| "nextSiblingStartNode_loop (Some sibling) =
     (if isStart (tidyNodeGetType sibling) then Some sibling
      else nextSiblingStartNode_loop (tidyGetNext sibling))"
  by pat_completeness auto
termination
  by (relation "measure remaining") (auto simp: remaining_next)

definition nextSiblingStartNode :: "TidyNode \<Rightarrow> TidyNode option" where
  "nextSiblingStartNode node = nextSiblingStartNode_loop (tidyGetNext node)"

function allStartNodes_loop :: "TidyNode option \<Rightarrow> TidyNode list \<Rightarrow> TidyNode list" where
  "allStartNodes_loop None nodes = nodes"
| "allStartNodes_loop (Some child) nodes =
     (let nodes1 = (if isStart (tidyNodeGetType child) then nodes @ [child] else nodes);
          nodes2 = allStartNodes_loop (tidyGetChild child) nodes1
      in allStartNodes_loop (tidyGetNext child) nodes2)"
  by pat_completeness auto
termination
  by (relation "measure (\<lambda>(h, nodes). remaining h)")
    (auto simp: remaining_next remaining_child)

definition allStartNodes :: "TidyNode \<Rightarrow> TidyNode list" where
  "allStartNodes node = allStartNodes_loop (tidyGetChild node) []"

function allTextNodes_loop :: "TidyNode option \<Rightarrow> TidyNode list \<Rightarrow> TidyNode list" where
  "allTextNodes_loop None nodes = nodes"
| "allTextNodes_loop (Some child) nodes =
     (let nodes1 = (if tidyNodeGetType child = TidyNode_Text then nodes @ [child] else nodes);
          nodes2 = allTextNodes_loop (tidyGetChild child) nodes1
      in allTextNodes_loop (tidyGetNext child) nodes2)"
  by pat_completeness auto
termination
  by (relation "measure (\<lambda>(h, nodes). remaining h)")
    (auto simp: remaining_next remaining_child)

definition allTextNodes :: "TidyNode \<Rightarrow> TidyNode list" where
  "allTextNodes node = allTextNodes_loop (tidyGetChild node) []"

lemma nextSiblingStartNode_loop_remaining:
  "nextSiblingStartNode_loop h = Some s \<Longrightarrow> remaining (Some s) \<le> remaining h"
proof (induction h rule: nextSiblingStartNode_loop.induct)
  case 1
  then show ?case by simp
next
  case (2 sibling)
  show ?case
  proof (cases "isStart (tidyNodeGetType sibling)")
    case True
    with 2 show ?thesis by simp
  next
    case False
    with 2 have "remaining (Some s) \<le> remaining (tidyGetNext sibling)" by simp
    with remaining_next [of sibling] show ?thesis by simp
  qed
qed

lemma remaining_nextSiblingStartNode:
  "nextSiblingStartNode c = Some s \<Longrightarrow> remaining (Some s) < remaining (Some c)"
  using nextSiblingStartNode_loop_remaining [of "tidyGetNext c" s] remaining_next [of c]
  by (simp add: nextSiblingStartNode_def)

function childStartNodes_loop :: "TidyNode option \<Rightarrow> TidyNode list \<Rightarrow> TidyNode list" where
  "childStartNodes_loop None nodes = nodes"
| "childStartNodes_loop (Some child) nodes =
     childStartNodes_loop (nextSiblingStartNode child) (nodes @ [child])"
  by pat_completeness auto
termination
proof (relation "measure (\<lambda>(h, nodes). remaining h)")
  show "wf (measure (\<lambda>(h, nodes). remaining h))" by simp
next
  fix child :: TidyNode and nodes :: "TidyNode list"
  show "((nextSiblingStartNode child, nodes @ [child]), (Some child, nodes))
          \<in> measure (\<lambda>(h, nodes). remaining h)"
  proof (cases "nextSiblingStartNode child")
    case None
    then show ?thesis by (simp add: remaining_def split: option.splits)
  next
    case (Some s)
    then show ?thesis using remaining_nextSiblingStartNode [of child s] by simp
  qed
qed

definition childStartNodes :: "TidyNode \<Rightarrow> TidyNode list" where
  "childStartNodes node = childStartNodes_loop (childStartNode node) []"

section \<open>QHtmlElement\<close>

text \<open>
  A \<open>TidyDoc\<close> is what the normalizer built from one content: the tree under its root
  node, the nodes its own lookups report for \<open>html\<close>, \<open>head\<close> and \<open>body\<close>, the error
  count and the error buffer (\<open>None\<close> when nothing was written to it).
\<close>

record TidyDoc =
  docRoot :: tnode
  docHtml :: "nat list option"
  docHead :: "nat list option"
  docBody :: "nat list option"
  tidyErrorCount :: nat
  errorBuffer :: "QString option"

record QHtmlElement =
  d_document :: "TidyDoc option"
  d_node :: "TidyNode option"

definition nullElement :: QHtmlElement where
  "nullElement = \<lparr>d_document = None, d_node = None\<rparr>"

text \<open>\<open>element.d->document = d->document; element.d->node = n\<close>, or the null element.\<close>
definition bindNode :: "QHtmlElement \<Rightarrow> TidyNode option \<Rightarrow> QHtmlElement" where
  "bindNode e h =
     (case h of
        None \<Rightarrow> nullElement
      | Some n \<Rightarrow> \<lparr>d_document = d_document e, d_node = Some n\<rparr>)"

definition isNull :: "QHtmlElement \<Rightarrow> bool" where
  "isNull e = (d_document e = None \<or> d_node e = None)"

definition parentElement :: "QHtmlElement \<Rightarrow> QHtmlElement" where
  "parentElement e =
     (case d_node e of None \<Rightarrow> nullElement | Some n \<Rightarrow> bindNode e (tidyGetParent n))"

definition nextSibling :: "QHtmlElement \<Rightarrow> QHtmlElement" where
  "nextSibling e =
     (case d_node e of None \<Rightarrow> nullElement | Some n \<Rightarrow> bindNode e (nextSiblingStartNode n))"

definition previousSibling :: "QHtmlElement \<Rightarrow> QHtmlElement" where
  "previousSibling e =
     (case d_node e of None \<Rightarrow> nullElement | Some n \<Rightarrow> bindNode e (previousSiblingStartNode n))"

definition childElements :: "QHtmlElement \<Rightarrow> QHtmlElement list" where
  "childElements e =
     (case d_node e of
        None \<Rightarrow> []
      | Some n \<Rightarrow> map (\<lambda>c. \<lparr>d_document = d_document e, d_node = Some c\<rparr>) (childStartNodes n))"

definition firstChildElement :: "QHtmlElement \<Rightarrow> QHtmlElement" where
  "firstChildElement e =
     (case d_node e of None \<Rightarrow> nullElement | Some n \<Rightarrow> bindNode e (childStartNode n))"

definition lastChildElement :: "QHtmlElement \<Rightarrow> QHtmlElement" where
  "lastChildElement e =
     (case d_node e of
        None \<Rightarrow> nullElement
      | Some n \<Rightarrow>
          (let nodes = childStartNodes n
           in if nodes \<noteq> [] then bindNode e (Some (last nodes)) else nullElement))"

text \<open>\<open>n\<close> is a C \<open>int\<close>; \<open>nodes.size() + n\<close> for \<open>n < 0\<close> and \<open>nodes.size() - 1\<close>
  cannot overflow.  Both reads \<open>nodes.at(...)\<close> are inside the list by their guards.\<close>

definition nthChildElement :: "QHtmlElement \<Rightarrow> int \<Rightarrow> QHtmlElement" where
  "nthChildElement e n =
     (if n = 0 then firstChildElement e
      else case d_node e of
        None \<Rightarrow> nullElement
      | Some nd \<Rightarrow>
          (let nodes = childStartNodes nd
           in if n < 0 then
                (if int (length nodes) + n \<ge> 0
                 then bindNode e (Some (nodes ! nat (int (length nodes) + n)))
                 else nullElement)
              else if n < int (length nodes) - 1 then bindNode e (Some (nodes ! nat n))
              else nullElement))"

fun elementById_loop :: "TidyNode list \<Rightarrow> QString \<Rightarrow> TidyNode option" where
  "elementById_loop [] ident = None"
| "elementById_loop (n # rest) ident =
     (case nodeAttribute n ''id'' of
        None \<Rightarrow> elementById_loop rest ident
      | Some v \<Rightarrow> if v = ident then Some n else elementById_loop rest ident)"

definition elementById :: "QHtmlElement \<Rightarrow> QString \<Rightarrow> QHtmlElement" where
  "elementById e ident =
     (case d_node e of
        None \<Rightarrow> nullElement
      | Some n \<Rightarrow> bindNode e (elementById_loop (allStartNodes n) ident))"

fun elementsByTagName_loop :: "TidyNode list \<Rightarrow> QString \<Rightarrow> TidyNode list \<Rightarrow> TidyNode list" where
  "elementsByTagName_loop [] name elements = elements"
| "elementsByTagName_loop (n # rest) name elements =
     (if tidyNodeGetName n = name then elementsByTagName_loop rest name (elements @ [n])
      else elementsByTagName_loop rest name elements)"

definition elementsByTagName :: "QHtmlElement \<Rightarrow> QString \<Rightarrow> QHtmlElement list" where
  "elementsByTagName e name =
     (case d_node e of
        None \<Rightarrow> []
      | Some n \<Rightarrow> map (\<lambda>c. \<lparr>d_document = d_document e, d_node = Some c\<rparr>)
                    (elementsByTagName_loop (allStartNodes n) name []))"

fun firstElementByTagName_loop :: "TidyNode list \<Rightarrow> QString \<Rightarrow> TidyNode option" where
  "firstElementByTagName_loop [] name = None"
| "firstElementByTagName_loop (n # rest) name =
     (if tidyNodeGetName n = name then Some n else firstElementByTagName_loop rest name)"

definition firstElementByTagName :: "QHtmlElement \<Rightarrow> QString \<Rightarrow> QHtmlElement" where
  "firstElementByTagName e name =
     (case d_node e of
        None \<Rightarrow> nullElement
      | Some n \<Rightarrow> bindNode e (firstElementByTagName_loop (allStartNodes n) name))"

definition lastElementByTagName :: "QHtmlElement \<Rightarrow> QString \<Rightarrow> QHtmlElement" where
  "lastElementByTagName e name =
     (let elements = elementsByTagName e name
      in if elements \<noteq> [] then last elements else nullElement)"

text \<open>
  The loop of \<open>nthElementByTagName\<close>:
  \<open>for (int i = start; i != end; i += inc)\<close> with the constants
  \<open>end = (n < 0 ? 0 : nodes.size() - 1)\<close> and \<open>inc = (n < 0 ? -1 : 1)\<close>; the loop state is
  \<open>i\<close> and \<open>hits\<close>.  \<open>nodes.at(i)\<close> outside the list is an error of its own.
\<close>

datatype error = IndexOutOfRange

function nthElementByTagName_loop ::
    "TidyNode list \<Rightarrow> QString \<Rightarrow> int \<Rightarrow> int \<Rightarrow> int \<Rightarrow> error + TidyNode option" where
  "nthElementByTagName_loop nodes name n i hits =
     (let end_i = (if n < 0 then 0 else int (length nodes) - 1);
          inc = (if n < 0 then - 1 else 1)
      in if i = end_i then Inr None
         else if i < 0 \<or> int (length nodes) \<le> i then Inl IndexOutOfRange
         else if tidyNodeGetName (nodes ! nat i) = name then
           (if hits = n then Inr (Some (nodes ! nat i))
            else nthElementByTagName_loop nodes name n (i + inc) (hits + inc))
         else nthElementByTagName_loop nodes name n (i + inc) hits)"
  by pat_completeness auto
termination
  by (relation "measure (\<lambda>(nodes, name, n, i, hits).
        nat \<bar>i - (if n < 0 then 0 else int (length nodes) - 1)\<bar>)") auto

declare nthElementByTagName_loop.simps [simp del]

definition nthElementByTagName :: "QHtmlElement \<Rightarrow> int \<Rightarrow> QString \<Rightarrow> error + QHtmlElement" where
  "nthElementByTagName e n name =
     (if n = 0 then Inr (firstElementByTagName e name)
      else case d_node e of
        None \<Rightarrow> Inr nullElement
      | Some nd \<Rightarrow>
          (let nodes = allStartNodes nd
           in if nodes = [] then Inr nullElement
              else let start = (if n < 0 then int (length nodes) - 1 else 0)
                   in case nthElementByTagName_loop nodes name n start 0 of
                        Inl err \<Rightarrow> Inl err
                      | Inr h \<Rightarrow> Inr (bindNode e h)))"

definition tagName :: "QHtmlElement \<Rightarrow> QString" where
  "tagName e = (case d_node e of Some n \<Rightarrow> tidyNodeGetName n | None \<Rightarrow> [])"

text \<open>\<open>tidyNodeGetText\<close> appends what it prints for the node to the buffer; the buffer is
  its bytes, \<open>None\<close> while \<open>buffer.bp\<close> is null.\<close>

type_synonym TidyBuffer = "QString option"

definition tidyNodeGetText :: "TidyNode \<Rightarrow> TidyBuffer \<Rightarrow> TidyBuffer" where
  "tidyNodeGetText n buffer =
     Some ((case buffer of None \<Rightarrow> [] | Some bp \<Rightarrow> bp) @ nodeText (the (deref n)))"

fun text_all_loop :: "TidyNode list \<Rightarrow> TidyBuffer \<Rightarrow> TidyBuffer" where
  "text_all_loop [] buffer = buffer"
| "text_all_loop (n # rest) buffer = text_all_loop rest (tidyNodeGetText n buffer)"

fun text_own_loop :: "TidyNode \<Rightarrow> TidyNode list \<Rightarrow> TidyBuffer \<Rightarrow> TidyBuffer" where
  "text_own_loop nd [] buffer = buffer"
| "text_own_loop nd (n # rest) buffer =
     (if tidyGetParent n = Some nd then tidyNodeGetText n buffer
      else text_own_loop nd rest buffer)"

definition elementText :: "QHtmlElement \<Rightarrow> bool \<Rightarrow> QString" where
  "elementText e includeChildElements =
     (case (d_document e, d_node e) of
        (Some doc, Some nd) \<Rightarrow>
          (let buffer = (if includeChildElements then text_all_loop (allTextNodes nd) None
                         else text_own_loop nd (allTextNodes nd) None)
           in case buffer of
                Some bp \<Rightarrow> if suffix [CHR 0x0A] bp then butlast bp else bp
              | None \<Rightarrow> [])
      | _ \<Rightarrow> [])"

section \<open>QHtmlDocument\<close>

record QHtmlDocumentPrivate =
  doc_document :: "TidyDoc option"
  doc_error :: bool
  doc_errorString :: QString

definition newDocument :: QHtmlDocumentPrivate where
  "newDocument = \<lparr>doc_document = None, doc_error = False, doc_errorString = []\<rparr>"

text \<open>
  \<open>tidyCreate\<close>, the option settings and \<open>tidyParseString\<close> together are the parameter
  \<open>parse\<close>: the normalizer, from the bytes of the content to the document it builds.
  \<open>setContent\<close> returns its result and the new state of the document.
\<close>

definition setContent ::
    "(string \<Rightarrow> TidyDoc) \<Rightarrow> string \<Rightarrow> QHtmlDocumentPrivate \<Rightarrow> bool \<times> QHtmlDocumentPrivate" where
  "setContent parse contents d =
     (let doc = parse contents;
          err = (tidyErrorCount doc > 0);
          msg = (if err then (case errorBuffer doc of None \<Rightarrow> [] | Some bp \<Rightarrow> bp) else [])
      in (\<not> err, \<lparr>doc_document = Some doc, doc_error = err, doc_errorString = msg\<rparr>))"

definition tidyGetRoot :: "TidyDoc \<Rightarrow> TidyNode option" where
  "tidyGetRoot doc = Some (docRoot doc, [])"

definition tidyGetHtml :: "TidyDoc \<Rightarrow> TidyNode option" where
  "tidyGetHtml doc = map_option (Pair (docRoot doc)) (docHtml doc)"

definition tidyGetHead :: "TidyDoc \<Rightarrow> TidyNode option" where
  "tidyGetHead doc = map_option (Pair (docRoot doc)) (docHead doc)"

definition tidyGetBody :: "TidyDoc \<Rightarrow> TidyNode option" where
  "tidyGetBody doc = map_option (Pair (docRoot doc)) (docBody doc)"

definition accessor :: "QHtmlDocumentPrivate \<Rightarrow> (TidyDoc \<Rightarrow> TidyNode option) \<Rightarrow> QHtmlElement" where
  "accessor d lookup =
     (case doc_document d of
        None \<Rightarrow> nullElement
      | Some doc \<Rightarrow>
          (case lookup doc of
             None \<Rightarrow> nullElement
           | Some n \<Rightarrow> \<lparr>d_document = Some doc, d_node = Some n\<rparr>))"

definition documentElement :: "QHtmlDocumentPrivate \<Rightarrow> QHtmlElement" where
  "documentElement d = accessor d tidyGetRoot"

definition htmlElement :: "QHtmlDocumentPrivate \<Rightarrow> QHtmlElement" where
  "htmlElement d = accessor d tidyGetHtml"

definition headElement :: "QHtmlDocumentPrivate \<Rightarrow> QHtmlElement" where
  "headElement d = accessor d tidyGetHead"

definition bodyElement :: "QHtmlDocumentPrivate \<Rightarrow> QHtmlElement" where
  "bodyElement d = accessor d tidyGetBody"

definition hasError :: "QHtmlDocumentPrivate \<Rightarrow> bool" where
  "hasError d = doc_error d"

definition errorString :: "QHtmlDocumentPrivate \<Rightarrow> QString" where
  "errorString d = doc_errorString d"

definition doc_isNull :: "QHtmlDocumentPrivate \<Rightarrow> bool" where
  "doc_isNull d = (doc_document d = None)"

section \<open>Vocabulary of the properties, and example values\<close>

text \<open>A flag is set in a flag value when their bitwise AND is not zero.\<close>

definition flagSet :: "MatchFlags \<Rightarrow> MatchFlag \<Rightarrow> bool" where
  "flagSet i flag = (i AND flagValue flag \<noteq> 0)"

text \<open>
  A criterion finds a matching attribute on a node when the first attribute of the node
  that has the criterion's name has a value and that value satisfies the criterion.  An
  attribute name is absent from a node when no attribute of the node has it.
\<close>

definition finds :: "qt_lib \<Rightarrow> TidyNode \<Rightarrow> QHtmlAttributeMatch \<Rightarrow> bool" where
  "finds L node m =
     (case find (\<lambda>a. tidyAttrName a = m_name m) (tidyAttrs node) of
        None \<Rightarrow> False
      | Some a \<Rightarrow> (case tidyAttrValue a of None \<Rightarrow> False | Some v \<Rightarrow> matchAttribute L v m))"

definition absent :: "TidyNode \<Rightarrow> QString \<Rightarrow> bool" where
  "absent node name = (name \<notin> tidyAttrName ` set (tidyAttrs node))"

text \<open>
  An instance of the Qt parameters for the examples: case folding of the ASCII letters, and
  a pattern search for patterns without metacharacters, which are searched literally.
\<close>

definition asciiLower :: "char \<Rightarrow> char" where
  "asciiLower c =
     (let k = (of_char c :: nat) in if 65 \<le> k \<and> k \<le> 90 then char_of (k + 32) else c)"

definition exampleQt :: qt_lib where
  "exampleQt =
     \<lparr>foldCase = asciiLower,
      rxContains = (\<lambda>syntax cs pat subject.
         sublist (case cs of CaseSensitive \<Rightarrow> pat | CaseInsensitive \<Rightarrow> map asciiLower pat)
           (case cs of CaseSensitive \<Rightarrow> subject | CaseInsensitive \<Rightarrow> map asciiLower subject))\<rparr>"

definition elementNode :: "QString \<Rightarrow> TidyAttr list \<Rightarrow> tnode list \<Rightarrow> tnode" where
  "elementNode name as ks = TNode TidyNode_Start name as [] ks"

text \<open>
  The tree of the content
  \<^verbatim>\<open><html><head><title>T</title></head><body><p id=x>Hello <b>big</b> world</p>
<!-- c --><a id=x href=1></a>and<a id=x href=2></a></body></html>\<close>.
  The text printed for a text node ends with a newline.
\<close>

definition textNode :: "QString \<Rightarrow> tnode" where
  "textNode s = TNode TidyNode_Text [] [] (s @ [CHR 0x0A]) []"

definition exTree :: tnode where
  "exTree = TNode TidyNode_Root [] [] []
     [elementNode ''html'' []
        [elementNode ''head'' [] [elementNode ''title'' [] [textNode ''T'']],
         elementNode ''body'' []
           [elementNode ''p'' [TidyAttr ''id'' (Some ''x'')]
              [textNode ''Hello'', elementNode ''b'' [] [textNode ''big''], textNode ''world''],
            TNode TidyNode_Comment [] [] ''<!-- c -->'' [],
            elementNode ''a'' [TidyAttr ''id'' (Some ''x''), TidyAttr ''href'' (Some ''1'')] [],
            textNode ''and'',
            elementNode ''a'' [TidyAttr ''id'' (Some ''x''), TidyAttr ''href'' (Some ''2'')] []]]]"

definition exDoc :: TidyDoc where
  "exDoc = \<lparr>docRoot = exTree, docHtml = Some [0], docHead = Some [0, 0], docBody = Some [0, 1],
     tidyErrorCount = 0, errorBuffer = None\<rparr>"

definition exElement :: "nat list \<Rightarrow> QHtmlElement" where
  "exElement p = \<lparr>d_document = Some exDoc, d_node = Some (exTree, p)\<rparr>"

text \<open>Whether the sibling with index \<open>k\<close> of a node exists and is a start node.\<close>

definition startSiblingAt :: "TidyNode \<Rightarrow> nat \<Rightarrow> bool" where
  "startSiblingAt n k =
     (snd n \<noteq> [] \<and>
      (case deref (fst n, butlast (snd n) @ [k]) of
         None \<Rightarrow> False
       | Some s \<Rightarrow> isStart (nodeType s)))"

text \<open>
  The proper descendants of a tree node in pre-order, as paths relative to the node: each
  child before its own descendants, and the children from left to right.
\<close>

fun preorder :: "tnode \<Rightarrow> nat list list"
  and preorder_list :: "nat \<Rightarrow> tnode list \<Rightarrow> nat list list" where
  "preorder (TNode ty nm as tx ks) = preorder_list 0 ks"
| "preorder_list i [] = []"
| "preorder_list i (k # ks) = [i] # map ((#) i) (preorder k) @ preorder_list (Suc i) ks"

text \<open>
  Document order on paths: a node comes before another when it is a proper ancestor of it,
  or when at the first index where the two paths differ its index is the smaller one.
\<close>

fun docBefore :: "nat list \<Rightarrow> nat list \<Rightarrow> bool" where
  "docBefore [] [] = False"
| "docBefore [] (j # q) = True"
| "docBefore (i # p) [] = False"
| "docBefore (i # p) (j # q) = (i < j \<or> (i = j \<and> docBefore p q))"

text \<open>A node handle is a proper descendant of another: same tree, longer path, and it
  points at a node.\<close>

definition isDescendant :: "TidyNode \<Rightarrow> TidyNode \<Rightarrow> bool" where
  "isDescendant n m = (fst m = fst n \<and> strict_prefix (snd n) (snd m) \<and> deref m \<noteq> None)"

text \<open>A tree in which a start node lies below a comment node.\<close>

definition exNested :: tnode where
  "exNested = TNode TidyNode_Root [] [] []
     [TNode TidyNode_Comment [] [] [] [elementNode ''b'' [] []], elementNode ''i'' [] []]"

text \<open>The \<open>id\<close> attribute of a node is exactly the given string: the first attribute of
  the node named \<open>id\<close> has a value, and the value is that string, code unit by code unit.\<close>

definition hasId :: "TidyNode \<Rightarrow> QString \<Rightarrow> bool" where
  "hasId m ident =
     (case find (\<lambda>a. tidyAttrName a = ''id'') (tidyAttrs m) of
        None \<Rightarrow> False
      | Some a \<Rightarrow> tidyAttrValue a = Some ident)"

text \<open>A string without its single trailing newline character, if it has one.\<close>

definition chopNewline :: "QString \<Rightarrow> QString" where
  "chopNewline s = (if s \<noteq> [] \<and> last s = CHR 0x0A then butlast s else s)"

text \<open>The concatenation, in document order, of the text of all the text nodes whose parent
  is the given node.\<close>

definition ownTextConcat :: "tnode \<Rightarrow> QString" where
  "ownTextConcat nd =
     concat (map nodeText (filter (\<lambda>k. nodeType k = TidyNode_Text) (content nd)))"

text \<open>
  The normalizer writes a diagnostic to the error buffer for every error it counts: a
  document with a positive error count has a non-empty error buffer.
\<close>

definition writesDiagnostics :: "TidyDoc \<Rightarrow> bool" where
  "writesDiagnostics doc =
     (tidyErrorCount doc = 0 \<or> (case errorBuffer doc of None \<Rightarrow> False | Some bp \<Rightarrow> bp \<noteq> []))"

text \<open>
  The example content, and the same content with an unknown tag \<open><foo>\<close> in its body.
  From the second the normalizer counts an error, writes the diagnostic to the error
  buffer, discards the tag and, output being forced, still builds the tree.  \<open>exParse\<close> is
  a normalizer that does so on these contents.
\<close>

definition exContent :: string where
  "exContent = ''<html><head><title>T</title></head><body><p id=x>Hello <b>big</b> world</p>''
     @ ''<!-- c --><a id=x href=1></a>and<a id=x href=2></a></body></html>''"

definition exBadContent :: string where
  "exBadContent = ''<html><head><title>T</title></head><body><p id=x>Hello <b>big</b> world</p>''
     @ ''<!-- c --><a id=x href=1></a>and<a id=x href=2></a><foo></body></html>''"

definition exErrDoc :: TidyDoc where
  "exErrDoc = exDoc\<lparr>tidyErrorCount := 1,
     errorBuffer := Some ''line 1 column 127 - Error: <foo> is not recognized!''\<rparr>"

definition exParse :: "string \<Rightarrow> TidyDoc" where
  "exParse contents = (if contents = exBadContent then exErrDoc else exDoc)"

section \<open>matchAttribute\<close>

lemma and_single_bit:
  fixes i :: "'a::len word"
  shows "(i AND 2 ^ n = 2 ^ n) = (i AND 2 ^ n \<noteq> 0 \<or> LENGTH('a) \<le> n)"
proof (cases "n < LENGTH('a)")
  case True
  have "(i AND 2 ^ n = 2 ^ n) = bit i n"
  proof
    assume "i AND 2 ^ n = 2 ^ n"
    then have "bit (i AND 2 ^ n) n = bit ((2::'a word) ^ n) n" by simp
    with True show "bit i n" by (simp add: bit_simps)
  next
    assume "bit i n"
    then show "i AND 2 ^ n = 2 ^ n"
      by (intro bit_word_eqI) (auto simp: bit_simps)
  qed
  with True show ?thesis
    by (simp add: and_exp_eq_0_iff_not_bit)
next
  case False
  then have z: "(2::'a word) ^ n = 0" by simp
  show ?thesis unfolding z using False by simp
qed

lemma testFlag_nonzero:
  "flag \<noteq> MatchExactly \<Longrightarrow> QFlags_testFlag i flag = flagSet i flag"
  using and_single_bit[of i 0] and_single_bit[of i 1] and_single_bit[of i 2]
    and_single_bit[of i 3] and_single_bit[of i 4] and_single_bit[of i 5]
  by (cases flag) (simp_all add: QFlags_testFlag_def flagSet_def)

lemma testFlag_zero: "QFlags_testFlag i MatchExactly = (i = 0)"
  by (simp add: QFlags_testFlag_def)

lemma no_shape_flag:
  fixes i :: MatchFlags
  assumes "i AND 0x1F = 0" and "flag \<noteq> MatchExactly" and "flag \<noteq> MatchCaseSensitive"
  shows "\<not> flagSet i flag"
proof -
  have "i AND flagValue flag = (i AND 0x1F) AND flagValue flag"
    using assms(2,3) by (cases flag) (simp_all add: and.assoc)
  with assms(1) show ?thesis by (simp add: flagSet_def)
qed

text \<open>
  C10.  When the flag value of a criterion combines several shape flags, \<open>matchAttribute\<close>
  applies one test, chosen in a fixed order: Contains first, then StartsWith (which also
  requires EndsWith with the same value when both flags are set), then EndsWith, then
  RegExp, then Wildcard.  The Exactly test applies only when the flag value is zero (and is
  then case-insensitive).  So a criterion whose flag value is not zero and has none of the
  five shape flags, such as \<open>MatchCaseSensitive\<close> alone, matches no value.
\<close>

theorem matchAttribute_precedence:
  "matchAttribute L v m =
     (let cs = (if flagSet (m_flags m) MatchCaseSensitive then CaseSensitive else CaseInsensitive)
      in if m_flags m = 0 then QString_compare_eq L v (m_value m) CaseInsensitive
         else if flagSet (m_flags m) MatchContains then QString_contains L v (m_value m) cs
         else if flagSet (m_flags m) MatchStartsWith then
           QString_startsWith L v (m_value m) cs
           \<and> (flagSet (m_flags m) MatchEndsWith \<longrightarrow> QString_endsWith L v (m_value m) cs)
         else if flagSet (m_flags m) MatchEndsWith then QString_endsWith L v (m_value m) cs
         else if flagSet (m_flags m) MatchRegExp then rxContains L RegExp cs (m_value m) v
         else if flagSet (m_flags m) MatchWildcard then rxContains L Wildcard cs (m_value m) v
         else False)
   \<and> (m_flags m \<noteq> 0 \<and> m_flags m AND 0x1F = 0 \<longrightarrow> \<not> matchAttribute L v m)"
proof -
  have cs: "caseOf m =
      (if flagSet (m_flags m) MatchCaseSensitive then CaseSensitive else CaseInsensitive)"
    by (simp add: caseOf_def testFlag_def testFlag_nonzero)
  have zero: "\<not> flagSet 0 MatchCaseSensitive"
    by (simp add: flagSet_def)
  have main: "matchAttribute L v m =
     (let cs = (if flagSet (m_flags m) MatchCaseSensitive then CaseSensitive else CaseInsensitive)
      in if m_flags m = 0 then QString_compare_eq L v (m_value m) CaseInsensitive
         else if flagSet (m_flags m) MatchContains then QString_contains L v (m_value m) cs
         else if flagSet (m_flags m) MatchStartsWith then
           QString_startsWith L v (m_value m) cs
           \<and> (flagSet (m_flags m) MatchEndsWith \<longrightarrow> QString_endsWith L v (m_value m) cs)
         else if flagSet (m_flags m) MatchEndsWith then QString_endsWith L v (m_value m) cs
         else if flagSet (m_flags m) MatchRegExp then rxContains L RegExp cs (m_value m) v
         else if flagSet (m_flags m) MatchWildcard then rxContains L Wildcard cs (m_value m) v
         else False)"
    unfolding matchAttribute_def cs
    by (auto simp: testFlag_def testFlag_nonzero testFlag_zero Let_def zero)
  have "\<not> matchAttribute L v m" if "m_flags m \<noteq> 0" "m_flags m AND 0x1F = 0"
    unfolding main using that by (simp add: no_shape_flag Let_def)
  with main show ?thesis by blast
qed

theorem matchAttribute_precedence_witness:
  "\<not> matchAttribute exampleQt ''foo'' \<lparr>m_name = ''class'', m_value = ''foo'', m_flags = 0x20\<rparr>
   \<and> \<not> matchAttribute exampleQt ''foobar'' \<lparr>m_name = ''class'', m_value = ''foo'', m_flags = 0x06\<rparr>
   \<and> matchAttribute exampleQt ''foobar'' \<lparr>m_name = ''class'', m_value = ''OBA'', m_flags = 0x07\<rparr>"
proof -
  let ?only_cs = "\<lparr>m_name = ''class'', m_value = ''foo'', m_flags = 0x20\<rparr>"
  let ?both_ends = "\<lparr>m_name = ''class'', m_value = ''foo'', m_flags = 0x06\<rparr>"
  let ?three = "\<lparr>m_name = ''class'', m_value = ''OBA'', m_flags = 0x07\<rparr>"
  have "m_flags ?only_cs \<noteq> 0 \<and> m_flags ?only_cs AND 0x1F = 0" by simp
  with matchAttribute_precedence [of exampleQt "''foo''" ?only_cs]
  have 1: "\<not> matchAttribute exampleQt ''foo'' ?only_cs" by blast
  have "QString_startsWith exampleQt ''foobar'' ''foo'' CaseInsensitive"
    and "\<not> QString_endsWith exampleQt ''foobar'' ''foo'' CaseInsensitive" by code_simp+
  with matchAttribute_precedence [of exampleQt "''foobar''" ?both_ends]
  have 2: "\<not> matchAttribute exampleQt ''foobar'' ?both_ends"
    by (simp add: flagSet_def)
  have "QString_contains exampleQt ''foobar'' ''OBA'' CaseInsensitive" by code_simp
  with matchAttribute_precedence [of exampleQt "''foobar''" ?three]
  have 3: "matchAttribute exampleQt ''foobar'' ?three"
    by (simp add: flagSet_def)
  from 1 2 3 show ?thesis by blast
qed

text \<open>
  C1.  The source at the input of the claim: a criterion built as
  \<open>MatchExactly | MatchCaseSensitive\<close> has the flag value \<open>0x20\<close>, for which
  \<open>testFlag(MatchExactly)\<close> is false, so \<open>matchAttribute\<close> returns false even on the value
  of the criterion itself.  Only the flag value zero reaches the Exactly test, and then the
  comparison is the case-insensitive one.
\<close>

theorem matchExactly_caseSensitive_never_matches:
  "matchAttribute L v
     \<lparr>m_name = n, m_value = v, m_flags = flagValue MatchExactly OR flagValue MatchCaseSensitive\<rparr>
     = False
   \<and> matchAttribute L v \<lparr>m_name = n, m_value = x, m_flags = flagValue MatchExactly\<rparr>
     = (map (foldCase L) v = map (foldCase L) x)"
  by (simp add: matchAttribute_def testFlag_def QFlags_testFlag_def caseOf_def
      QString_compare_eq_def fold_with_def)


section \<open>matchAttributes\<close>

lemma nodeAttribute_loop_find:
  "nodeAttribute_loop as name =
     (case find (\<lambda>a. tidyAttrName a = name) as of None \<Rightarrow> None | Some a \<Rightarrow> tidyAttrValue a)"
  by (induction as) simp_all

lemma finds_iff:
  "finds L nd m = (\<exists>v. nodeAttribute nd (m_name m) = Some v \<and> matchAttribute L v m)"
  by (simp add: finds_def nodeAttribute_def nodeAttribute_loop_find split: option.splits)

lemma absent_not_finds: "absent nd (m_name m) \<Longrightarrow> \<not> finds L nd m"
proof -
  assume "absent nd (m_name m)"
  then have "find (\<lambda>a. tidyAttrName a = m_name m) (tidyAttrs nd) = None"
    by (force simp: absent_def find_None_iff)
  then show ?thesis by (simp add: finds_def)
qed

lemma matchAll_loop_iff: "matchAll_loop L nd ms = (\<forall>m\<in>set ms. finds L nd m)"
  by (induction ms) (auto simp: finds_iff split: option.splits)

lemma matchAny_loop_iff: "matchAny_loop L nd ms = (\<exists>m\<in>set ms. finds L nd m)"
  by (induction ms) (auto simp: finds_iff split: option.splits)

text \<open>
  C6.  Under \<open>MatchAll\<close>, \<open>matchAttributes\<close> is true exactly when every criterion finds a
  same-named attribute whose value satisfies it; a criterion that names an absent attribute
  fails the whole match; the empty list of criteria gives true.  Under \<open>MatchAny\<close> it is
  true exactly when some criterion finds a same-named attribute whose value satisfies it; a
  criterion that names an absent attribute is skipped (the result is that of the list
  without it); the empty list of criteria gives false.
\<close>

theorem matchAttributes_all_any:
  "matchAttributes L nd ms MatchAll = (\<forall>m\<in>set ms. finds L nd m)
   \<and> matchAttributes L nd ms MatchAny = (\<exists>m\<in>set ms. finds L nd m)
   \<and> (m \<in> set ms \<and> absent nd (m_name m) \<longrightarrow> \<not> matchAttributes L nd ms MatchAll)
   \<and> (absent nd (m_name m) \<longrightarrow>
        matchAttributes L nd (ms1 @ m # ms2) MatchAny = matchAttributes L nd (ms1 @ ms2) MatchAny)
   \<and> matchAttributes L nd [] MatchAll
   \<and> \<not> matchAttributes L nd [] MatchAny"
proof -
  have all: "matchAttributes L nd ks MatchAll = (\<forall>k\<in>set ks. finds L nd k)" for ks
    by (simp add: matchAttributes_def matchAll_loop_iff)
  have any: "matchAttributes L nd ks MatchAny = (\<exists>k\<in>set ks. finds L nd k)" for ks
    by (simp add: matchAttributes_def matchAny_loop_iff)
  have fails: "\<not> matchAttributes L nd ms MatchAll" if "m \<in> set ms" "absent nd (m_name m)"
    using that absent_not_finds [of nd m L] by (auto simp: all)
  have skipped: "matchAttributes L nd (ms1 @ m # ms2) MatchAny
      = matchAttributes L nd (ms1 @ ms2) MatchAny" if "absent nd (m_name m)"
    using that absent_not_finds [of nd m L] by (auto simp: any)
  show ?thesis
    using all [of ms] any [of ms] all [of "[]"] any [of "[]"] fails skipped by simp
qed

theorem matchAttributes_all_any_witness:
  "absent (exTree, [0, 1, 2]) ''class''
   \<and> \<not> matchAttributes exampleQt (exTree, [0, 1, 2])
        [\<lparr>m_name = ''id'', m_value = ''X'', m_flags = 0\<rparr>,
         \<lparr>m_name = ''class'', m_value = ''foo'', m_flags = 0\<rparr>] MatchAll
   \<and> matchAttributes exampleQt (exTree, [0, 1, 2])
        [\<lparr>m_name = ''id'', m_value = ''X'', m_flags = 0\<rparr>,
         \<lparr>m_name = ''class'', m_value = ''foo'', m_flags = 0\<rparr>] MatchAny
   \<and> matchAttributes exampleQt (exTree, [0, 1, 2])
        [\<lparr>m_name = ''class'', m_value = ''foo'', m_flags = 0\<rparr>] MatchAny
       = matchAttributes exampleQt (exTree, [0, 1, 2]) [] MatchAny"
proof -
  let ?a = "(exTree, [0, 1, 2])"
  let ?byId = "\<lparr>m_name = ''id'', m_value = ''X'', m_flags = 0\<rparr>"
  let ?byClass = "\<lparr>m_name = ''class'', m_value = ''foo'', m_flags = 0\<rparr>"
  have a: "absent ?a (m_name ?byClass)" by code_simp
  have f: "finds exampleQt ?a ?byId" by code_simp
  have mem: "?byId \<in> set [?byId, ?byClass]" "?byClass \<in> set [?byId, ?byClass]" by simp_all
  note t = matchAttributes_all_any [of exampleQt ?a "[?byId, ?byClass]" ?byClass "[]" "[]"]
  from t mem a have 1: "\<not> matchAttributes exampleQt ?a [?byId, ?byClass] MatchAll"
    by blast
  from t mem f have 2: "matchAttributes exampleQt ?a [?byId, ?byClass] MatchAny"
    by blast
  from t a have "matchAttributes exampleQt ?a ([] @ ?byClass # []) MatchAny
      = matchAttributes exampleQt ?a ([] @ []) MatchAny"
    by blast
  then have 3: "matchAttributes exampleQt ?a [?byClass] MatchAny
      = matchAttributes exampleQt ?a [] MatchAny"
    by simp
  from a 1 2 3 show ?thesis by simp
qed

section \<open>Sibling lookups\<close>

lemma deref_snoc:
  "deref (t, q @ [i]) =
     (case subtree t q of
        None \<Rightarrow> None
      | Some par \<Rightarrow> if i < length (content par) then Some (content par ! i) else None)"
  by (simp add: deref_def subtree_snoc)

lemma tidyGetNext_snoc:
  assumes "subtree t q = Some par" and "i < length (content par)"
  shows "tidyGetNext (t, q @ [i]) =
           (if Suc i < length (content par) then Some (t, q @ [Suc i]) else None)"
  using assms by (simp add: tidyGetNext_def deref_snoc Let_def)

lemma tidyGetPrev_snoc:
  assumes "subtree t q = Some par" and "i < length (content par)"
  shows "tidyGetPrev (t, q @ [i]) = (if i = 0 then None else Some (t, q @ [i - 1]))"
  using assms by (simp add: tidyGetPrev_def deref_snoc)

lemma tidyNodeGetType_snoc:
  assumes "subtree t q = Some par" and "i < length (content par)"
  shows "tidyNodeGetType (t, q @ [i]) = nodeType (content par ! i)"
  using assms by (simp add: tidyNodeGetType_def deref_snoc)

lemma nextSiblingStartNode_loop_spec:
  assumes par: "subtree t q = Some par"
  shows "i < length (content par) \<Longrightarrow>
     (case nextSiblingStartNode_loop (Some (t, q @ [i])) of
        None \<Rightarrow> \<forall>k. i \<le> k \<and> k < length (content par) \<longrightarrow> \<not> isStart (nodeType (content par ! k))
      | Some s \<Rightarrow> \<exists>j. i \<le> j \<and> j < length (content par) \<and> s = (t, q @ [j])
            \<and> isStart (nodeType (content par ! j))
            \<and> (\<forall>k. i \<le> k \<and> k < j \<longrightarrow> \<not> isStart (nodeType (content par ! k))))"
proof (induction "length (content par) - i" arbitrary: i)
  case 0
  then show ?case by simp
next
  case (Suc d)
  show ?case
  proof (cases "isStart (nodeType (content par ! i))")
    case True
    with Suc.prems par show ?thesis
      by (auto simp: tidyNodeGetType_snoc)
  next
    case False
    show ?thesis
    proof (cases "Suc i < length (content par)")
      case last: False
      with False Suc.prems par show ?thesis
        by (auto simp: tidyNodeGetType_snoc tidyGetNext_snoc less_Suc_eq dest: le_neq_implies_less)
    next
      case True
      from Suc.hyps(2) have "d = length (content par) - Suc i" by simp
      from Suc.hyps(1) [OF this True]
      have ih: "case nextSiblingStartNode_loop (Some (t, q @ [Suc i])) of
          None \<Rightarrow> \<forall>k. Suc i \<le> k \<and> k < length (content par)
                      \<longrightarrow> \<not> isStart (nodeType (content par ! k))
        | Some s \<Rightarrow> \<exists>j. Suc i \<le> j \<and> j < length (content par) \<and> s = (t, q @ [j])
              \<and> isStart (nodeType (content par ! j))
              \<and> (\<forall>k. Suc i \<le> k \<and> k < j \<longrightarrow> \<not> isStart (nodeType (content par ! k)))" .
      have step: "nextSiblingStartNode_loop (Some (t, q @ [i]))
          = nextSiblingStartNode_loop (Some (t, q @ [Suc i]))"
        using False True Suc.prems par by (simp add: tidyNodeGetType_snoc tidyGetNext_snoc)
      have low: "i \<le> k \<and> \<not> Suc i \<le> k \<Longrightarrow> k = i" for k by simp
      show ?thesis
      proof (cases "nextSiblingStartNode_loop (Some (t, q @ [Suc i]))")
        case None
        with ih have "\<forall>k. Suc i \<le> k \<and> k < length (content par)
            \<longrightarrow> \<not> isStart (nodeType (content par ! k))"
          by simp
        with False have "\<forall>k. i \<le> k \<and> k < length (content par)
            \<longrightarrow> \<not> isStart (nodeType (content par ! k))"
          by (metis le_neq_implies_less Suc_leI)
        moreover have "nextSiblingStartNode_loop (Some (t, q @ [i])) = None"
          using step None by simp
        ultimately show ?thesis by (simp del: nextSiblingStartNode_loop.simps)
      next
        case (Some s)
        with ih obtain j where j: "Suc i \<le> j" "j < length (content par)" "s = (t, q @ [j])"
          "isStart (nodeType (content par ! j))"
          "\<forall>k. Suc i \<le> k \<and> k < j \<longrightarrow> \<not> isStart (nodeType (content par ! k))"
          by auto
        have "\<forall>k. i \<le> k \<and> k < j \<longrightarrow> \<not> isStart (nodeType (content par ! k))"
          using j(5) False by (metis le_neq_implies_less Suc_leI)
        moreover have "nextSiblingStartNode_loop (Some (t, q @ [i])) = Some s"
          using step Some by simp
        ultimately show ?thesis
          using j by (auto simp del: nextSiblingStartNode_loop.simps)
      qed
    qed
  qed
qed

lemma previousSiblingStartNode_loop_spec:
  assumes par: "subtree t q = Some par"
  shows "i < length (content par) \<Longrightarrow>
     (case previousSiblingStartNode_loop (Some (t, q @ [i])) of
        None \<Rightarrow> \<forall>k. k \<le> i \<longrightarrow> \<not> isStart (nodeType (content par ! k))
      | Some s \<Rightarrow> \<exists>j. j \<le> i \<and> s = (t, q @ [j])
            \<and> isStart (nodeType (content par ! j))
            \<and> (\<forall>k. j < k \<and> k \<le> i \<longrightarrow> \<not> isStart (nodeType (content par ! k))))"
proof (induction i)
  case 0
  with par show ?case
    by (auto simp: tidyNodeGetType_snoc tidyGetPrev_snoc)
next
  case (Suc i)
  then have i: "i < length (content par)" by simp
  show ?case
  proof (cases "isStart (nodeType (content par ! Suc i))")
    case True
    with Suc.prems par show ?thesis
      by (auto simp: tidyNodeGetType_snoc)
  next
    case False
    have step: "previousSiblingStartNode_loop (Some (t, q @ [Suc i]))
        = previousSiblingStartNode_loop (Some (t, q @ [i]))"
      using False Suc.prems par by (simp add: tidyNodeGetType_snoc tidyGetPrev_snoc)
    show ?thesis
    proof (cases "previousSiblingStartNode_loop (Some (t, q @ [i]))")
      case None
      with Suc.IH [OF i] have "\<forall>k. k \<le> i \<longrightarrow> \<not> isStart (nodeType (content par ! k))"
        by simp
      with False have "\<forall>k. k \<le> Suc i \<longrightarrow> \<not> isStart (nodeType (content par ! k))"
        by (auto simp: le_Suc_eq)
      moreover have "previousSiblingStartNode_loop (Some (t, q @ [Suc i])) = None"
        using step None by simp
      ultimately show ?thesis by (simp del: previousSiblingStartNode_loop.simps)
    next
      case (Some s)
      with Suc.IH [OF i] obtain j where j: "j \<le> i" "s = (t, q @ [j])"
        "isStart (nodeType (content par ! j))"
        "\<forall>k. j < k \<and> k \<le> i \<longrightarrow> \<not> isStart (nodeType (content par ! k))"
        by auto
      have "\<forall>k. j < k \<and> k \<le> Suc i \<longrightarrow> \<not> isStart (nodeType (content par ! k))"
        using j(4) False by (auto simp: le_Suc_eq)
      moreover have "previousSiblingStartNode_loop (Some (t, q @ [Suc i])) = Some s"
        using step Some by simp
      ultimately show ?thesis
        using j by (auto simp del: previousSiblingStartNode_loop.simps)
    qed
  qed
qed

lemma nextSiblingStartNode_spec:
  assumes par: "subtree t q = Some par" and i: "i < length (content par)"
  shows "case nextSiblingStartNode (t, q @ [i]) of
        None \<Rightarrow> \<forall>k. i < k \<and> k < length (content par) \<longrightarrow> \<not> isStart (nodeType (content par ! k))
      | Some s \<Rightarrow> \<exists>j. i < j \<and> j < length (content par) \<and> s = (t, q @ [j])
            \<and> isStart (nodeType (content par ! j))
            \<and> (\<forall>k. i < k \<and> k < j \<longrightarrow> \<not> isStart (nodeType (content par ! k)))"
proof (cases "Suc i < length (content par)")
  case True
  have "nextSiblingStartNode (t, q @ [i]) = nextSiblingStartNode_loop (Some (t, q @ [Suc i]))"
    using par i True by (simp add: nextSiblingStartNode_def tidyGetNext_snoc)
  with nextSiblingStartNode_loop_spec [OF par True] show ?thesis
    by (auto simp: Suc_le_eq simp del: nextSiblingStartNode_loop.simps split: option.splits)
next
  case False
  then have "nextSiblingStartNode (t, q @ [i]) = None"
    using par i by (simp add: nextSiblingStartNode_def tidyGetNext_snoc)
  with False show ?thesis by auto
qed

lemma previousSiblingStartNode_spec:
  assumes par: "subtree t q = Some par" and i: "i < length (content par)"
  shows "case previousSiblingStartNode (t, q @ [i]) of
        None \<Rightarrow> \<forall>k. k < i \<longrightarrow> \<not> isStart (nodeType (content par ! k))
      | Some s \<Rightarrow> \<exists>j. j < i \<and> s = (t, q @ [j])
            \<and> isStart (nodeType (content par ! j))
            \<and> (\<forall>k. j < k \<and> k < i \<longrightarrow> \<not> isStart (nodeType (content par ! k)))"
proof (cases i)
  case 0
  then have "previousSiblingStartNode (t, q @ [i]) = None"
    using par i by (simp add: previousSiblingStartNode_def tidyGetPrev_snoc)
  with 0 show ?thesis by simp
next
  case (Suc m)
  with i have m: "m < length (content par)" by simp
  have "previousSiblingStartNode (t, q @ [i]) = previousSiblingStartNode_loop (Some (t, q @ [m]))"
    using par i Suc by (simp add: previousSiblingStartNode_def tidyGetPrev_snoc)
  with previousSiblingStartNode_loop_spec [OF par m] Suc show ?thesis
    by (auto simp: less_Suc_eq_le simp del: previousSiblingStartNode_loop.simps
        split: option.splits)
qed

lemma startSiblingAt_snoc:
  assumes "subtree t q = Some par"
  shows "startSiblingAt (t, q @ [i]) k
           = (k < length (content par) \<and> isStart (nodeType (content par ! k)))"
  using assms by (simp add: startSiblingAt_def deref_snoc)

lemma node_cases:
  assumes "deref n \<noteq> None"
  obtains (root) t where "n = (t, [])"
  | (inner) t q i par where "n = (t, q @ [i])" "subtree t q = Some par" "i < length (content par)"
proof (cases "snd n = []")
  case True
  then have "n = (fst n, [])" by (simp add: prod_eq_iff)
  then show ?thesis by (rule root)
next
  case False
  then have n: "n = (fst n, butlast (snd n) @ [last (snd n)])" by (simp add: prod_eq_iff)
  with assms have "deref (fst n, butlast (snd n) @ [last (snd n)]) \<noteq> None" by simp
  then obtain par where "subtree (fst n) (butlast (snd n)) = Some par"
      "last (snd n) < length (content par)"
    by (auto simp: deref_snoc split: option.splits if_splits)
  with n show ?thesis by (rule inner)
qed

lemma root_no_siblings:
  "nextSiblingStartNode (t, []) = None" "previousSiblingStartNode (t, []) = None"
  "\<not> startSiblingAt (t, []) k"
  by (simp_all add: nextSiblingStartNode_def previousSiblingStartNode_def tidyGetNext_def
      tidyGetPrev_def startSiblingAt_def)

lemma previous_of_next:
  assumes "deref n \<noteq> None" and "isStart (tidyNodeGetType n)"
    and "nextSiblingStartNode n = Some s"
  shows "previousSiblingStartNode s = Some n"
using assms(1) proof (cases n rule: node_cases)
  case (root t)
  with assms(3) show ?thesis by (simp add: root_no_siblings)
next
  case (inner t q i par)
  let ?S = "\<lambda>k. isStart (nodeType (content par ! k))"
  from assms(2) inner have Si: "?S i" by (simp add: tidyNodeGetType_snoc)
  from nextSiblingStartNode_spec [OF inner(2,3)] assms(3) inner(1)
  obtain j where j: "i < j" "j < length (content par)" "s = (t, q @ [j])" "?S j"
    "\<forall>k. i < k \<and> k < j \<longrightarrow> \<not> ?S k"
    by auto
  show ?thesis
  proof (cases "previousSiblingStartNode (t, q @ [j])")
    case None
    with previousSiblingStartNode_spec [OF inner(2) j(2)] j(1) Si show ?thesis by auto
  next
    case (Some r)
    with previousSiblingStartNode_spec [OF inner(2) j(2)]
    obtain m where m: "m < j" "r = (t, q @ [m])" "?S m" "\<forall>k. m < k \<and> k < j \<longrightarrow> \<not> ?S k"
      by auto
    have "m = i"
    proof (rule ccontr)
      assume "m \<noteq> i"
      then consider "m < i" | "i < m" by linarith
      then show False
      proof cases
        case 1
        with m(4) j(1) Si show False by blast
      next
        case 2
        with j(5) m(1,3) show False by blast
      qed
    qed
    with Some m(2) j(3) inner(1) show ?thesis by simp
  qed
qed

lemma next_of_previous:
  assumes "deref n \<noteq> None" and "isStart (tidyNodeGetType n)"
    and "previousSiblingStartNode n = Some s"
  shows "nextSiblingStartNode s = Some n"
using assms(1) proof (cases n rule: node_cases)
  case (root t)
  with assms(3) show ?thesis by (simp add: root_no_siblings)
next
  case (inner t q i par)
  let ?S = "\<lambda>k. isStart (nodeType (content par ! k))"
  from assms(2) inner have Si: "?S i" by (simp add: tidyNodeGetType_snoc)
  from previousSiblingStartNode_spec [OF inner(2,3)] assms(3) inner(1)
  obtain j where j: "j < i" "s = (t, q @ [j])" "?S j" "\<forall>k. j < k \<and> k < i \<longrightarrow> \<not> ?S k"
    by auto
  from j(1) inner(3) have jlen: "j < length (content par)" by simp
  show ?thesis
  proof (cases "nextSiblingStartNode (t, q @ [j])")
    case None
    with nextSiblingStartNode_spec [OF inner(2) jlen] j(1) inner(3) Si show ?thesis by auto
  next
    case (Some r)
    with nextSiblingStartNode_spec [OF inner(2) jlen]
    obtain m where m: "j < m" "m < length (content par)" "r = (t, q @ [m])" "?S m"
      "\<forall>k. j < k \<and> k < m \<longrightarrow> \<not> ?S k"
      by auto
    have "m = i"
    proof (rule ccontr)
      assume "m \<noteq> i"
      then consider "m < i" | "i < m" by linarith
      then show False
      proof cases
        case 1
        with j(4) m(1,4) show False by blast
      next
        case 2
        with m(5) j(1) Si show False by blast
      qed
    qed
    with Some m(3) j(2) inner(1) show ?thesis by simp
  qed
qed

text \<open>
  C9.  For an element \<open>e\<close> bound to a start node: if \<open>e.nextSibling()\<close> is not null, its
  \<open>previousSibling()\<close> is \<open>e\<close> (same document, same node), and if \<open>e.previousSibling()\<close> is
  not null, its \<open>nextSibling()\<close> is \<open>e\<close>.  Both lookups move along the sibling links only and
  skip the nodes that are not start nodes: the node found has the same parent, is the
  nearest start node on its side, and when nothing is found no sibling on that side is a
  start node.
\<close>

theorem sibling_round_trip:
  assumes "d_node e = Some n" and "deref n \<noteq> None" and "isStart (tidyNodeGetType n)"
  shows "(\<not> isNull (nextSibling e) \<longrightarrow> previousSibling (nextSibling e) = e)
    \<and> (\<not> isNull (previousSibling e) \<longrightarrow> nextSibling (previousSibling e) = e)
    \<and> (case nextSiblingStartNode n of
          None \<Rightarrow> \<forall>k. last (snd n) < k \<longrightarrow> \<not> startSiblingAt n k
        | Some s \<Rightarrow> \<exists>j. last (snd n) < j \<and> s = (fst n, butlast (snd n) @ [j])
              \<and> startSiblingAt n j
              \<and> (\<forall>k. last (snd n) < k \<and> k < j \<longrightarrow> \<not> startSiblingAt n k))
    \<and> (case previousSiblingStartNode n of
          None \<Rightarrow> \<forall>k. k < last (snd n) \<longrightarrow> \<not> startSiblingAt n k
        | Some s \<Rightarrow> \<exists>j. j < last (snd n) \<and> s = (fst n, butlast (snd n) @ [j])
              \<and> startSiblingAt n j
              \<and> (\<forall>k. j < k \<and> k < last (snd n) \<longrightarrow> \<not> startSiblingAt n k))"
proof -
  have e: "e = \<lparr>d_document = d_document e, d_node = Some n\<rparr>"
    using assms(1) by simp
  have 1: "previousSibling (nextSibling e) = e" if "\<not> isNull (nextSibling e)"
  proof -
    from that assms(1) obtain s where s: "nextSiblingStartNode n = Some s"
      by (cases "nextSiblingStartNode n")
        (auto simp: nextSibling_def bindNode_def isNull_def nullElement_def)
    from previous_of_next [OF assms(2,3) s] s assms(1) e show ?thesis
      by (simp add: nextSibling_def previousSibling_def bindNode_def)
  qed
  have 2: "nextSibling (previousSibling e) = e" if "\<not> isNull (previousSibling e)"
  proof -
    from that assms(1) obtain s where s: "previousSiblingStartNode n = Some s"
      by (cases "previousSiblingStartNode n")
        (auto simp: previousSibling_def bindNode_def isNull_def nullElement_def)
    from next_of_previous [OF assms(2,3) s] s assms(1) e show ?thesis
      by (simp add: nextSibling_def previousSibling_def bindNode_def)
  qed
  have 3: "case nextSiblingStartNode n of
          None \<Rightarrow> \<forall>k. last (snd n) < k \<longrightarrow> \<not> startSiblingAt n k
        | Some s \<Rightarrow> \<exists>j. last (snd n) < j \<and> s = (fst n, butlast (snd n) @ [j])
              \<and> startSiblingAt n j
              \<and> (\<forall>k. last (snd n) < k \<and> k < j \<longrightarrow> \<not> startSiblingAt n k)"
  using assms(2) proof (cases n rule: node_cases)
    case (root t)
    then show ?thesis by (simp add: root_no_siblings)
  next
    case (inner t q i par)
    with nextSiblingStartNode_spec [OF inner(2,3)] show ?thesis
      by (auto simp: startSiblingAt_snoc split: option.splits)
  qed
  have 4: "case previousSiblingStartNode n of
          None \<Rightarrow> \<forall>k. k < last (snd n) \<longrightarrow> \<not> startSiblingAt n k
        | Some s \<Rightarrow> \<exists>j. j < last (snd n) \<and> s = (fst n, butlast (snd n) @ [j])
              \<and> startSiblingAt n j
              \<and> (\<forall>k. j < k \<and> k < last (snd n) \<longrightarrow> \<not> startSiblingAt n k)"
  using assms(2) proof (cases n rule: node_cases)
    case (root t)
    then show ?thesis by (simp add: root_no_siblings)
  next
    case (inner t q i par)
    with previousSiblingStartNode_spec [OF inner(2,3)] show ?thesis
      by (auto simp: startSiblingAt_snoc split: option.splits)
  qed
  from 1 2 3 4 show ?thesis by blast
qed

theorem sibling_round_trip_witness:
  "nextSibling (exElement [0, 1, 0]) = exElement [0, 1, 2]
   \<and> previousSibling (nextSibling (exElement [0, 1, 0])) = exElement [0, 1, 0]
   \<and> previousSibling (exElement [0, 1, 4]) = exElement [0, 1, 2]
   \<and> nextSibling (previousSibling (exElement [0, 1, 4])) = exElement [0, 1, 4]"
proof -
  have n: "nextSibling (exElement [0, 1, 0]) = exElement [0, 1, 2]" by code_simp
  have p: "previousSibling (exElement [0, 1, 4]) = exElement [0, 1, 2]" by code_simp
  have a: "d_node (exElement [0, 1, 0]) = Some (exTree, [0, 1, 0])"
    "deref (exTree, [0, 1, 0]) \<noteq> None" "isStart (tidyNodeGetType (exTree, [0, 1, 0]))"
    by code_simp+
  have b: "d_node (exElement [0, 1, 4]) = Some (exTree, [0, 1, 4])"
    "deref (exTree, [0, 1, 4]) \<noteq> None" "isStart (tidyNodeGetType (exTree, [0, 1, 4]))"
    by code_simp+
  have nn: "\<not> isNull (exElement [0, 1, 2])" by code_simp
  from sibling_round_trip [OF a] n nn
  have 1: "previousSibling (nextSibling (exElement [0, 1, 0])) = exElement [0, 1, 0]" by simp
  from sibling_round_trip [OF b] p nn
  have 2: "nextSibling (previousSibling (exElement [0, 1, 4])) = exElement [0, 1, 4]" by simp
  from n p 1 2 show ?thesis by simp
qed

section \<open>The full-subtree scans\<close>

lemma preorder_content: "preorder n = preorder_list 0 (content n)"
  by (cases n) simp

lemma tidyGetChild_eq:
  "subtree t p = Some n \<Longrightarrow>
     tidyGetChild (t, p) = (if content n = [] then None else Some (t, p @ [0]))"
  by (simp add: tidyGetChild_def deref_def)

lemma drop_eq_Cons:
  assumes "drop i xs = y # ys"
  shows "i < length xs" and "xs ! i = y" and "drop (Suc i) xs = ys"
proof -
  from assms show i: "i < length xs" by (cases "i < length xs") auto
  from Cons_nth_drop_Suc [OF i] assms show "xs ! i = y" "drop (Suc i) xs = ys" by simp_all
qed

lemma allStartNodes_loop_preorder:
  "(\<forall>t p acc. subtree t p = Some n \<longrightarrow>
      allStartNodes_loop (tidyGetChild (t, p)) acc
        = acc @ filter (\<lambda>m. isStart (tidyNodeGetType m)) (map (\<lambda>r. (t, p @ r)) (preorder n)))"
  "(\<forall>t p acc par. subtree t p = Some par \<longrightarrow> drop i (content par) = ks \<longrightarrow>
      allStartNodes_loop (if ks = [] then None else Some (t, p @ [i])) acc
        = acc @ filter (\<lambda>m. isStart (tidyNodeGetType m)) (map (\<lambda>r. (t, p @ r)) (preorder_list i ks)))"
proof (induction n and i ks rule: preorder_preorder_list.induct)
  case (1 ty nm as tx ks)
  show ?case
  proof (intro allI impI)
    fix t p acc
    assume n: "subtree t p = Some (TNode ty nm as tx ks)"
    from 1 n have "allStartNodes_loop (if ks = [] then None else Some (t, p @ [0])) acc
        = acc @ filter (\<lambda>m. isStart (tidyNodeGetType m))
            (map (\<lambda>r. (t, p @ r)) (preorder_list 0 ks))"
      by simp
    with n show "allStartNodes_loop (tidyGetChild (t, p)) acc
        = acc @ filter (\<lambda>m. isStart (tidyNodeGetType m))
            (map (\<lambda>r. (t, p @ r)) (preorder (TNode ty nm as tx ks)))"
      by (simp add: tidyGetChild_eq)
  qed
next
  case (2 i)
  show ?case by simp
next
  case (3 i k ks)
  show ?case
  proof (intro allI impI)
    fix t p acc par
    assume par: "subtree t p = Some par" and d: "drop i (content par) = k # ks"
    let ?c = "(t, p @ [i])"
    let ?S = "\<lambda>m. isStart (tidyNodeGetType m)"
    note dd = drop_eq_Cons [OF d]
    have c: "subtree t (p @ [i]) = Some k"
      using par dd by (simp add: subtree_snoc)
    have nxt: "tidyGetNext ?c = (if ks = [] then None else Some (t, p @ [Suc i]))"
      using par dd by (auto simp: tidyGetNext_snoc)
    let ?acc1 = "if ?S ?c then acc @ [?c] else acc"
    have inner: "allStartNodes_loop (tidyGetChild ?c) ?acc1
        = ?acc1 @ filter ?S (map (\<lambda>r. (t, (p @ [i]) @ r)) (preorder k))"
      using 3(1) c by blast
    have rest: "allStartNodes_loop (tidyGetNext ?c) acc'
        = acc' @ filter ?S (map (\<lambda>r. (t, p @ r)) (preorder_list (Suc i) ks))" for acc'
      using 3(2) par dd(3) nxt by simp
    have "allStartNodes_loop (Some ?c) acc
        = allStartNodes_loop (tidyGetNext ?c) (allStartNodes_loop (tidyGetChild ?c) ?acc1)"
      by (simp add: Let_def)
    also have "\<dots> = (?acc1 @ filter ?S (map (\<lambda>r. (t, (p @ [i]) @ r)) (preorder k)))
        @ filter ?S (map (\<lambda>r. (t, p @ r)) (preorder_list (Suc i) ks))"
      by (simp only: inner rest)
    also have "\<dots> = acc @ filter ?S (map (\<lambda>r. (t, p @ r)) (preorder_list i (k # ks)))"
      by (simp add: comp_def)
    finally show "allStartNodes_loop (if k # ks = [] then None else Some (t, p @ [i])) acc
        = acc @ filter ?S (map (\<lambda>r. (t, p @ r)) (preorder_list i (k # ks)))"
      by simp
  qed
qed

lemma allStartNodes_preorder:
  "subtree t p = Some n \<Longrightarrow>
     allStartNodes (t, p)
       = filter (\<lambda>m. isStart (tidyNodeGetType m)) (map (\<lambda>r. (t, p @ r)) (preorder n))"
  using allStartNodes_loop_preorder(1) [of n] by (simp add: allStartNodes_def)

lemma preorder_set:
  "set (preorder n) = {r. r \<noteq> [] \<and> subtree n r \<noteq> None}"
  "set (preorder_list i ks)
     = {j # r | j r. i \<le> j \<and> j - i < length ks \<and> subtree (ks ! (j - i)) r \<noteq> None}"
proof (induction n and i ks rule: preorder_preorder_list.induct)
  case (1 ty nm as tx ks)
  have "{r. r \<noteq> [] \<and> subtree (TNode ty nm as tx ks) r \<noteq> None}
      = {j # r | j r. j < length ks \<and> subtree (ks ! j) r \<noteq> None}"
  proof (intro set_eqI iffI)
    fix r
    assume "r \<in> {r. r \<noteq> [] \<and> subtree (TNode ty nm as tx ks) r \<noteq> None}"
    then show "r \<in> {j # r | j r. j < length ks \<and> subtree (ks ! j) r \<noteq> None}"
      by (cases r) (auto split: if_splits)
  next
    fix r
    assume "r \<in> {j # r | j r. j < length ks \<and> subtree (ks ! j) r \<noteq> None}"
    then show "r \<in> {r. r \<noteq> [] \<and> subtree (TNode ty nm as tx ks) r \<noteq> None}"
      by auto
  qed
  with 1 show ?case by simp
next
  case (2 i)
  show ?case by simp
next
  case (3 i k ks)
  have "{j # r | j r. i \<le> j \<and> j - i < length (k # ks) \<and> subtree ((k # ks) ! (j - i)) r \<noteq> None}
      = insert [i] ((#) i ` {r. r \<noteq> [] \<and> subtree k r \<noteq> None})
        \<union> {j # r | j r. Suc i \<le> j \<and> j - Suc i < length ks \<and> subtree (ks ! (j - Suc i)) r \<noteq> None}"
    (is "?L = ?R")
  proof (intro set_eqI iffI)
    fix q
    assume "q \<in> ?L"
    then obtain j r where q: "q = j # r" "i \<le> j" "j - i < length (k # ks)"
        "subtree ((k # ks) ! (j - i)) r \<noteq> None"
      by auto
    show "q \<in> ?R"
    proof (cases "j = i")
      case True
      with q show ?thesis by (cases r) auto
    next
      case False
      with q(2) have "Suc i \<le> j" by simp
      moreover from this have "j - i = Suc (j - Suc i)" by simp
      ultimately show ?thesis using q by auto
    qed
  next
    fix q
    assume "q \<in> ?R"
    then consider "q = [i]" | r where "q = i # r" "r \<noteq> []" "subtree k r \<noteq> None"
      | j r where "q = j # r" "Suc i \<le> j" "j - Suc i < length ks"
          "subtree (ks ! (j - Suc i)) r \<noteq> None"
      by auto
    then show "q \<in> ?L"
    proof cases
      case 1
      then show ?thesis by simp
    next
      case 2
      then show ?thesis by simp
    next
      case 3
      from 3(2) have "j - i = Suc (j - Suc i)" by simp
      with 3 show ?thesis by auto
    qed
  qed
  with 3 show ?case by simp
qed

lemma preorder_list_head:
  "q \<in> set (preorder_list i ks) \<Longrightarrow> \<exists>j r. q = j # r \<and> i \<le> j"
  by (auto simp: preorder_set(2))

lemma preorder_nonempty: "r \<in> set (preorder n) \<Longrightarrow> r \<noteq> []"
  by (simp add: preorder_set(1))

lemma preorder_distinct:
  "distinct (preorder n)"
  "distinct (preorder_list i ks)"
proof (induction n and i ks rule: preorder_preorder_list.induct)
  case (1 ty nm as tx ks)
  then show ?case by simp
next
  case (2 i)
  show ?case by simp
next
  case (3 i k ks)
  have a: "[i] \<notin> (#) i ` set (preorder k)"
    using preorder_nonempty [of _ k] by auto
  have b: "[i] \<notin> set (preorder_list (Suc i) ks)"
    using preorder_list_head [of "[i]" "Suc i" ks] by auto
  have c: "(#) i ` set (preorder k) \<inter> set (preorder_list (Suc i) ks) = {}"
    using preorder_list_head [of _ "Suc i" ks] by fastforce
  from 3 a b c show ?case by (simp add: distinct_map)
qed

lemma docBefore_Nil: "r \<noteq> [] \<Longrightarrow> docBefore [] r"
  by (cases r) simp_all

lemma preorder_sorted:
  "sorted_wrt docBefore (preorder n)"
  "sorted_wrt docBefore (preorder_list i ks)"
proof (induction n and i ks rule: preorder_preorder_list.induct)
  case (1 ty nm as tx ks)
  then show ?case by simp
next
  case (2 i)
  show ?case by simp
next
  case (3 i k ks)
  have a: "\<forall>q\<in>(#) i ` set (preorder k). docBefore [i] q"
    using preorder_nonempty [of _ k] by (auto simp: docBefore_Nil)
  have b: "\<forall>q\<in>set (preorder_list (Suc i) ks). docBefore [i] q"
    using preorder_list_head [of _ "Suc i" ks] by fastforce
  have c: "\<forall>q\<in>(#) i ` set (preorder k). \<forall>q'\<in>set (preorder_list (Suc i) ks). docBefore q q'"
    using preorder_list_head [of _ "Suc i" ks] by fastforce
  have d: "sorted_wrt docBefore (map ((#) i) (preorder k))"
    using 3(1) by (simp add: sorted_wrt_map)
  have e: "\<forall>q\<in>(#) i ` set (preorder k) \<union> set (preorder_list (Suc i) ks). docBefore [i] q"
    using a b by blast
  have "sorted_wrt docBefore (map ((#) i) (preorder k) @ preorder_list (Suc i) ks)"
    unfolding sorted_wrt_append using 3(2) c d by simp
  with e show ?case by simp
qed

lemma docBefore_append: "docBefore (p @ a) (p @ b) = docBefore a b"
  by (induction p) simp_all

lemma deref_descendant:
  assumes "subtree t p = Some n"
  shows "isDescendant (t, p) m = (\<exists>r. r \<noteq> [] \<and> subtree n r \<noteq> None \<and> m = (t, p @ r))"
proof
  assume "isDescendant (t, p) m"
  then obtain r where r: "snd m = p @ r" "r \<noteq> []" "fst m = t" "deref m \<noteq> None"
    by (auto simp: isDescendant_def strict_prefix_def prefix_def)
  with assms have "subtree n r \<noteq> None" by (simp add: deref_def subtree_append)
  with r show "\<exists>r. r \<noteq> [] \<and> subtree n r \<noteq> None \<and> m = (t, p @ r)"
    by (auto simp: prod_eq_iff)
next
  assume "\<exists>r. r \<noteq> [] \<and> subtree n r \<noteq> None \<and> m = (t, p @ r)"
  with assms show "isDescendant (t, p) m"
    by (auto simp: isDescendant_def deref_def subtree_append strict_prefix_def)
qed

lemma no_descendant_of_dangling:
  assumes "deref n = None"
  shows "\<not> isDescendant n m"
proof
  assume "isDescendant n m"
  then obtain r where "snd m = snd n @ r" "fst m = fst n" "deref m \<noteq> None"
    by (auto simp: isDescendant_def strict_prefix_def prefix_def)
  with assms show False by (simp add: deref_def subtree_append)
qed

lemma allStartNodes_dangling: "deref n = None \<Longrightarrow> allStartNodes n = []"
  by (simp add: allStartNodes_def tidyGetChild_def)

lemma allStartNodes_distinct: "distinct (allStartNodes n)"
proof (cases "deref n")
  case None
  then show ?thesis by (simp add: allStartNodes_dangling)
next
  case (Some nd)
  obtain t p where n: "n = (t, p)" by (cases n)
  with Some have nd: "subtree t p = Some nd" by (simp add: deref_def)
  have "inj_on (\<lambda>r. (t, p @ r)) (set (preorder nd))"
    by (simp add: inj_on_def)
  then show ?thesis
    unfolding n allStartNodes_preorder [OF nd] by (simp add: distinct_map preorder_distinct(1))
qed

lemma allStartNodes_set:
  "set (allStartNodes n) = {m. isDescendant n m \<and> isStart (tidyNodeGetType m)}"
proof (cases "deref n")
  case None
  then show ?thesis by (simp add: allStartNodes_dangling no_descendant_of_dangling)
next
  case (Some nd)
  obtain t p where n: "n = (t, p)" by (cases n)
  with Some have nd: "subtree t p = Some nd" by (simp add: deref_def)
  show ?thesis
    unfolding n allStartNodes_preorder [OF nd]
    by (auto simp: deref_descendant [OF nd] preorder_set(1))
qed

lemma allStartNodes_sorted:
  "sorted_wrt (\<lambda>a b. docBefore (snd a) (snd b)) (allStartNodes n)"
proof (cases "deref n")
  case None
  then show ?thesis by (simp add: allStartNodes_dangling)
next
  case (Some nd)
  obtain t p where n: "n = (t, p)" by (cases n)
  with Some have nd: "subtree t p = Some nd" by (simp add: deref_def)
  have "sorted_wrt (\<lambda>a b. docBefore (snd a) (snd b)) (map (\<lambda>r. (t, p @ r)) (preorder nd))"
    using preorder_sorted(1) [of nd] by (simp add: sorted_wrt_map docBefore_append)
  then show ?thesis
    unfolding n allStartNodes_preorder [OF nd] by (rule sorted_wrt_filter)
qed

text \<open>
  C7.  For every tree and every node of it, \<open>allStartNodes\<close> lists every descendant start
  node exactly once, in pre-order document order.  The scan descends into every child
  whatever the type of the child: a start node below a text or comment node is listed too.
\<close>

theorem allStartNodes_preorder_scan:
  "distinct (allStartNodes n)
   \<and> set (allStartNodes n) = {m. isDescendant n m \<and> isStart (tidyNodeGetType m)}
   \<and> sorted_wrt (\<lambda>a b. docBefore (snd a) (snd b)) (allStartNodes n)"
  using allStartNodes_distinct [of n] allStartNodes_set [of n] allStartNodes_sorted [of n]
  by blast

theorem allStartNodes_preorder_scan_witness:
  "(exTree, [0, 1, 0, 1]) \<in> set (allStartNodes (exTree, [0, 1]))
   \<and> (exTree, [0, 1, 1]) \<notin> set (allStartNodes (exTree, [0, 1]))
   \<and> (exNested, [0, 0]) \<in> set (allStartNodes (exNested, []))
   \<and> distinct (allStartNodes (exTree, []))
   \<and> sorted_wrt (\<lambda>a b. docBefore (snd a) (snd b)) (allStartNodes (exTree, []))"
proof -
  have b: "isDescendant (exTree, [0, 1]) (exTree, [0, 1, 0, 1])"
    "isStart (tidyNodeGetType (exTree, [0, 1, 0, 1]))"
    by code_simp+
  have c: "\<not> isStart (tidyNodeGetType (exTree, [0, 1, 1]))" by code_simp
  have n: "isDescendant (exNested, []) (exNested, [0, 0])"
    "isStart (tidyNodeGetType (exNested, [0, 0]))"
    by code_simp+
  from allStartNodes_preorder_scan [of "(exTree, [0, 1])"] b c
  have 1: "(exTree, [0, 1, 0, 1]) \<in> set (allStartNodes (exTree, [0, 1]))"
    "(exTree, [0, 1, 1]) \<notin> set (allStartNodes (exTree, [0, 1]))"
    by simp_all
  from allStartNodes_preorder_scan [of "(exNested, [])"] n
  have 2: "(exNested, [0, 0]) \<in> set (allStartNodes (exNested, []))" by simp
  from allStartNodes_preorder_scan [of "(exTree, [])"] 1 2 show ?thesis by simp
qed

section \<open>elementById\<close>

lemma hasId_nodeAttribute: "hasId m ident = (nodeAttribute m ''id'' = Some ident)"
  by (simp add: hasId_def nodeAttribute_def nodeAttribute_loop_find split: option.splits)

lemma elementById_loop_find:
  "elementById_loop xs ident = find (\<lambda>m. hasId m ident) xs"
  by (induction xs) (auto simp: hasId_nodeAttribute split: option.splits)

lemma find_first_sorted:
  assumes "sorted_wrt R xs" and "find P xs = Some r"
  shows "r \<in> set xs \<and> P r \<and> (\<forall>m\<in>set xs. P m \<longrightarrow> m = r \<or> R r m)"
  using assms
proof (induction xs)
  case Nil
  then show ?case by simp
next
  case (Cons x xs)
  show ?case
  proof (cases "P x")
    case True
    with Cons.prems show ?thesis by auto
  next
    case False
    with Cons show ?thesis by auto
  qed
qed

text \<open>
  C8.  For an element bound to a node, \<open>elementById(id)\<close> returns the first descendant start
  node in pre-order whose \<open>id\<close> attribute is exactly equal to \<open>id\<close>, bound to the document
  of the element, and the null element when there is none.  When several descendants have
  that id, every other one comes after the result in document order.
\<close>

theorem elementById_first_in_document_order:
  assumes "d_node e = Some n"
  shows "case d_node (elementById e ident) of
           None \<Rightarrow> elementById e ident = nullElement
                  \<and> (\<forall>m. isDescendant n m \<and> isStart (tidyNodeGetType m) \<longrightarrow> \<not> hasId m ident)
         | Some r \<Rightarrow> elementById e ident = \<lparr>d_document = d_document e, d_node = Some r\<rparr>
                  \<and> isDescendant n r \<and> isStart (tidyNodeGetType r) \<and> hasId r ident
                  \<and> (\<forall>m. isDescendant n m \<and> isStart (tidyNodeGetType m) \<and> hasId m ident
                        \<longrightarrow> m = r \<or> docBefore (snd r) (snd m))"
proof (cases "find (\<lambda>m. hasId m ident) (allStartNodes n)")
  case None
  then have "\<forall>m\<in>set (allStartNodes n). \<not> hasId m ident"
    by (auto simp: find_None_iff)
  then have "\<forall>m. isDescendant n m \<and> isStart (tidyNodeGetType m) \<longrightarrow> \<not> hasId m ident"
    by (simp add: allStartNodes_set)
  moreover have "elementById e ident = nullElement"
    using assms None by (simp add: elementById_def elementById_loop_find bindNode_def)
  ultimately show ?thesis by (simp add: nullElement_def)
next
  case (Some r)
  from find_first_sorted [OF allStartNodes_sorted Some]
  have "isDescendant n r \<and> isStart (tidyNodeGetType r) \<and> hasId r ident
      \<and> (\<forall>m. isDescendant n m \<and> isStart (tidyNodeGetType m) \<and> hasId m ident
            \<longrightarrow> m = r \<or> docBefore (snd r) (snd m))"
    by (simp add: allStartNodes_set)
  moreover have "elementById e ident = \<lparr>d_document = d_document e, d_node = Some r\<rparr>"
    using assms Some by (simp add: elementById_def elementById_loop_find bindNode_def)
  ultimately show ?thesis by simp
qed

theorem elementById_first_in_document_order_witness:
  "elementById (exElement []) ''x'' = exElement [0, 1, 0]
   \<and> elementById (exElement [0, 1, 0]) ''x'' = nullElement
   \<and> hasId (exTree, [0, 1, 2]) ''x''
   \<and> docBefore [0, 1, 0] [0, 1, 2]"
proof -
  have a: "d_node (exElement []) = Some (exTree, [])"
    "d_node (exElement [0, 1, 0]) = Some (exTree, [0, 1, 0])"
    by code_simp+
  have r: "elementById (exElement []) ''x'' = exElement [0, 1, 0]" by code_simp
  have z: "elementById (exElement [0, 1, 0]) ''x'' = nullElement" by code_simp
  have m: "isDescendant (exTree, []) (exTree, [0, 1, 2])"
    "isStart (tidyNodeGetType (exTree, [0, 1, 2]))" "hasId (exTree, [0, 1, 2]) ''x''"
    by code_simp+
  have ne: "(exTree, [0, 1, 2::nat]) \<noteq> (exTree, [0, 1, 0])" by simp
  from elementById_first_in_document_order [OF a(1), of "''x''"] r a(2)
  have "\<forall>m. isDescendant (exTree, []) m \<and> isStart (tidyNodeGetType m) \<and> hasId m ''x''
          \<longrightarrow> m = (exTree, [0, 1, 0]) \<or> docBefore [0, 1, 0] (snd m)"
    by simp
  with m ne have "docBefore [0, 1, 0] [0, 1, 2]" by fastforce
  with r z m show ?thesis by simp
qed

section \<open>text\<close>

lemma allTextNodes_loop_preorder:
  "(\<forall>t p acc. subtree t p = Some n \<longrightarrow>
      allTextNodes_loop (tidyGetChild (t, p)) acc
        = acc @ filter (\<lambda>m. tidyNodeGetType m = TidyNode_Text)
            (map (\<lambda>r. (t, p @ r)) (preorder n)))"
  "(\<forall>t p acc par. subtree t p = Some par \<longrightarrow> drop i (content par) = ks \<longrightarrow>
      allTextNodes_loop (if ks = [] then None else Some (t, p @ [i])) acc
        = acc @ filter (\<lambda>m. tidyNodeGetType m = TidyNode_Text)
            (map (\<lambda>r. (t, p @ r)) (preorder_list i ks)))"
proof (induction n and i ks rule: preorder_preorder_list.induct)
  case (1 ty nm as tx ks)
  show ?case
  proof (intro allI impI)
    fix t p acc
    assume n: "subtree t p = Some (TNode ty nm as tx ks)"
    from 1 n have "allTextNodes_loop (if ks = [] then None else Some (t, p @ [0])) acc
        = acc @ filter (\<lambda>m. tidyNodeGetType m = TidyNode_Text)
            (map (\<lambda>r. (t, p @ r)) (preorder_list 0 ks))"
      by simp
    with n show "allTextNodes_loop (tidyGetChild (t, p)) acc
        = acc @ filter (\<lambda>m. tidyNodeGetType m = TidyNode_Text)
            (map (\<lambda>r. (t, p @ r)) (preorder (TNode ty nm as tx ks)))"
      by (simp add: tidyGetChild_eq)
  qed
next
  case (2 i)
  show ?case by simp
next
  case (3 i k ks)
  show ?case
  proof (intro allI impI)
    fix t p acc par
    assume par: "subtree t p = Some par" and d: "drop i (content par) = k # ks"
    let ?c = "(t, p @ [i])"
    let ?T = "\<lambda>m. tidyNodeGetType m = TidyNode_Text"
    note dd = drop_eq_Cons [OF d]
    have c: "subtree t (p @ [i]) = Some k"
      using par dd by (simp add: subtree_snoc)
    have nxt: "tidyGetNext ?c = (if ks = [] then None else Some (t, p @ [Suc i]))"
      using par dd by (auto simp: tidyGetNext_snoc)
    let ?acc1 = "if ?T ?c then acc @ [?c] else acc"
    have inner: "allTextNodes_loop (tidyGetChild ?c) ?acc1
        = ?acc1 @ filter ?T (map (\<lambda>r. (t, (p @ [i]) @ r)) (preorder k))"
      using 3(1) c by blast
    have rest: "allTextNodes_loop (tidyGetNext ?c) acc'
        = acc' @ filter ?T (map (\<lambda>r. (t, p @ r)) (preorder_list (Suc i) ks))" for acc'
      using 3(2) par dd(3) nxt by simp
    have "allTextNodes_loop (Some ?c) acc
        = allTextNodes_loop (tidyGetNext ?c) (allTextNodes_loop (tidyGetChild ?c) ?acc1)"
      by (simp add: Let_def)
    also have "\<dots> = (?acc1 @ filter ?T (map (\<lambda>r. (t, (p @ [i]) @ r)) (preorder k)))
        @ filter ?T (map (\<lambda>r. (t, p @ r)) (preorder_list (Suc i) ks))"
      by (simp only: inner rest)
    also have "\<dots> = acc @ filter ?T (map (\<lambda>r. (t, p @ r)) (preorder_list i (k # ks)))"
      by (simp add: comp_def)
    finally show "allTextNodes_loop (if k # ks = [] then None else Some (t, p @ [i])) acc
        = acc @ filter ?T (map (\<lambda>r. (t, p @ r)) (preorder_list i (k # ks)))"
      by simp
  qed
qed

lemma allTextNodes_preorder:
  "subtree t p = Some n \<Longrightarrow>
     allTextNodes (t, p)
       = filter (\<lambda>m. tidyNodeGetType m = TidyNode_Text)
           (map (\<lambda>r. (t, p @ r)) (preorder_list 0 (content n)))"
  using allTextNodes_loop_preorder(1) [of n]
  by (simp add: allTextNodes_def preorder_content)

lemma text_own_loop_skip:
  "\<forall>x\<in>set xs. tidyGetParent x \<noteq> Some nd \<Longrightarrow>
     text_own_loop nd (xs @ ys) buffer = text_own_loop nd ys buffer"
  by (induction xs) simp_all

lemma grandchild_parent:
  "r \<noteq> [] \<Longrightarrow> tidyGetParent (t, p @ i # r) \<noteq> Some (t, p)"
  by (auto simp: tidyGetParent_def butlast_append)

lemma text_own_loop_children:
  assumes par: "subtree t p = Some par"
  shows "drop i (content par) = ks \<Longrightarrow>
     text_own_loop (t, p)
       (filter (\<lambda>m. tidyNodeGetType m = TidyNode_Text)
          (map (\<lambda>r. (t, p @ r)) (preorder_list i ks))) buffer
     = (case find (\<lambda>k. nodeType k = TidyNode_Text) ks of
          None \<Rightarrow> buffer
        | Some k \<Rightarrow> Some ((case buffer of None \<Rightarrow> [] | Some bp \<Rightarrow> bp) @ nodeText k))"
proof (induction ks arbitrary: i)
  case Nil
  then show ?case by simp
next
  case (Cons k ks)
  let ?T = "\<lambda>m. tidyNodeGetType m = TidyNode_Text"
  note dd = drop_eq_Cons [OF Cons.prems]
  have c: "deref (t, p @ [i]) = Some k"
    using par dd by (simp add: deref_snoc)
  have ty: "tidyNodeGetType (t, p @ [i]) = nodeType k"
    using par dd by (simp add: tidyNodeGetType_snoc)
  have parent: "tidyGetParent (t, p @ [i]) = Some (t, p)"
    using c by (simp add: tidyGetParent_def)
  let ?below = "filter ?T (map (\<lambda>r. (t, p @ r)) (map ((#) i) (preorder k)))"
  let ?later = "filter ?T (map (\<lambda>r. (t, p @ r)) (preorder_list (Suc i) ks))"
  have skip: "\<forall>x\<in>set ?below. tidyGetParent x \<noteq> Some (t, p)"
    using preorder_nonempty [of _ k] by (auto simp: grandchild_parent)
  show ?case
  proof (cases "nodeType k = TidyNode_Text")
    case True
    with ty parent c show ?thesis
      by (simp add: tidyNodeGetText_def)
  next
    case False
    have "text_own_loop (t, p)
        (filter ?T (map (\<lambda>r. (t, p @ r)) (preorder_list i (k # ks)))) buffer
        = text_own_loop (t, p) (?below @ ?later) buffer"
      using False ty by simp
    also have "\<dots> = text_own_loop (t, p) ?later buffer"
      using skip by (rule text_own_loop_skip)
    also have "\<dots> = (case find (\<lambda>k. nodeType k = TidyNode_Text) ks of
          None \<Rightarrow> buffer
        | Some k \<Rightarrow> Some ((case buffer of None \<Rightarrow> [] | Some bp \<Rightarrow> bp) @ nodeText k))"
      using Cons.IH [OF dd(3)] .
    finally show ?thesis using False by simp
  qed
qed

lemma chopNewline_suffix:
  "(if suffix [CHR 0x0A] bp then butlast bp else bp) = chopNewline bp"
proof (cases bp rule: rev_cases)
  case Nil
  then show ?thesis by (simp add: chopNewline_def)
next
  case (snoc ys y)
  then show ?thesis by (auto simp: chopNewline_def suffix_def)
qed

lemma text_own_first_text_child:
  assumes "\<not> isNull e" and "d_node e = Some n" and "deref n = Some nd"
  shows "elementText e False
    = (case find (\<lambda>k. nodeType k = TidyNode_Text) (content nd) of
         None \<Rightarrow> []
       | Some k \<Rightarrow> chopNewline (nodeText k))"
proof -
  obtain t p where n: "n = (t, p)" by (cases n)
  with assms(3) have nd: "subtree t p = Some nd" by (simp add: deref_def)
  from assms(1,2) obtain doc where doc: "d_document e = Some doc"
    by (auto simp: isNull_def)
  have "text_own_loop n (allTextNodes n) None
      = (case find (\<lambda>k. nodeType k = TidyNode_Text) (content nd) of
           None \<Rightarrow> None
         | Some k \<Rightarrow> Some (nodeText k))"
    unfolding n allTextNodes_preorder [OF nd]
    using text_own_loop_children [OF nd, of 0 "content nd" None]
    by (simp split: option.splits)
  then show ?thesis
    using doc assms(2)
    by (simp add: elementText_def chopNewline_suffix split: option.splits)
qed

lemma text_own_dangling:
  assumes "d_node e = Some n" and "deref n = None"
  shows "elementText e False = []"
proof -
  from assms(2) have "allTextNodes n = []"
    by (simp add: allTextNodes_def tidyGetChild_def)
  with assms(1) show ?thesis
    by (simp add: elementText_def split: option.splits)
qed

text \<open>
  C5.  The source at the inputs of the claim: for every element, \<open>text(false)\<close> is the text
  of the first text node whose immediate parent is the element, without its single trailing
  newline, and the empty string when there is none; the loop stops at that node, so the
  later text nodes of the element are left out.  On the paragraph of the example, whose own
  text nodes are \<open>Hello\<close> and \<open>world\<close>, \<open>text(false)\<close> is \<open>Hello\<close>: \<open>world\<close> is dropped,
  although \<open>text(true)\<close> returns it, and the concatenation of the own text nodes is
  \<open>Hello\<close>, newline, \<open>world\<close>.
\<close>

theorem text_own_stops_at_first_text_node:
  "elementText e False
     = (case d_document e of
          None \<Rightarrow> []
        | Some doc \<Rightarrow>
            (case d_node e of
               None \<Rightarrow> []
             | Some n \<Rightarrow>
                 (case deref n of
                    None \<Rightarrow> []
                  | Some nd \<Rightarrow>
                      (case find (\<lambda>k. nodeType k = TidyNode_Text) (content nd) of
                         None \<Rightarrow> []
                       | Some k \<Rightarrow> chopNewline (nodeText k)))))
   \<and> elementText (exElement [0, 1, 0]) False = ''Hello''
   \<and> elementText (exElement [0, 1, 0]) True
       = ''Hello'' @ [CHR 0x0A] @ ''big'' @ [CHR 0x0A] @ ''world''
   \<and> chopNewline (ownTextConcat (the (deref (exTree, [0, 1, 0]))))
       = ''Hello'' @ [CHR 0x0A] @ ''world''
   \<and> elementText (exElement [0, 1, 0]) False
       \<noteq> chopNewline (ownTextConcat (the (deref (exTree, [0, 1, 0]))))"
proof -
  have general: "elementText e False
     = (case d_document e of
          None \<Rightarrow> []
        | Some doc \<Rightarrow>
            (case d_node e of
               None \<Rightarrow> []
             | Some n \<Rightarrow>
                 (case deref n of
                    None \<Rightarrow> []
                  | Some nd \<Rightarrow>
                      (case find (\<lambda>k. nodeType k = TidyNode_Text) (content nd) of
                         None \<Rightarrow> []
                       | Some k \<Rightarrow> chopNewline (nodeText k)))))"
  proof (cases "d_document e")
    case None
    then show ?thesis by (simp add: elementText_def)
  next
    case doc: (Some doc)
    show ?thesis
    proof (cases "d_node e")
      case None
      with doc show ?thesis by (simp add: elementText_def)
    next
      case n: (Some n)
      from doc n have nn: "\<not> isNull e" by (simp add: isNull_def)
      show ?thesis
      proof (cases "deref n")
        case None
        with doc n text_own_dangling [OF n None] show ?thesis by simp
      next
        case (Some nd)
        with doc n text_own_first_text_child [OF nn n Some] show ?thesis by simp
      qed
    qed
  qed
  have "elementText (exElement [0, 1, 0]) False = ''Hello''
    \<and> elementText (exElement [0, 1, 0]) True
        = ''Hello'' @ [CHR 0x0A] @ ''big'' @ [CHR 0x0A] @ ''world''
    \<and> chopNewline (ownTextConcat (the (deref (exTree, [0, 1, 0]))))
        = ''Hello'' @ [CHR 0x0A] @ ''world''
    \<and> elementText (exElement [0, 1, 0]) False
        \<noteq> chopNewline (ownTextConcat (the (deref (exTree, [0, 1, 0]))))"
    by code_simp
  with general show ?thesis by blast
qed

section \<open>Ordinal selection\<close>

lemma nthChildElement_at_last_index:
  "nthChildElement e (int (length (childElements e)) - 1)
     = (if length (childElements e) = 1 then firstChildElement e else nullElement)"
proof (cases "d_node e")
  case None
  then show ?thesis by (simp add: nthChildElement_def childElements_def)
next
  case (Some nd)
  then have len: "length (childElements e) = length (childStartNodes nd)"
    by (simp add: childElements_def)
  consider "length (childStartNodes nd) = 0" | "length (childStartNodes nd) = 1"
    | "2 \<le> length (childStartNodes nd)"
    by linarith
  then show ?thesis
  proof cases
    case 1
    with Some len show ?thesis by (simp add: nthChildElement_def)
  next
    case 2
    with Some len show ?thesis by (simp add: nthChildElement_def)
  next
    case 3
    with Some len show ?thesis by (simp add: nthChildElement_def Let_def)
  qed
qed

text \<open>
  C3.  The source at the inputs of the claim with \<open>n = k - 1\<close>: for an element with \<open>k\<close>
  child elements, \<open>nthChildElement(k - 1)\<close> is the null element unless \<open>k = 1\<close>, because the
  guard \<open>n < nodes.size() - 1\<close> excludes the last index.  On the \<open>body\<close> of the example,
  which has three child elements, \<open>nthChildElement(2)\<close> is null, while the third child
  element exists and \<open>nthChildElement(-1)\<close> returns it.
\<close>

theorem nthChildElement_last_positive_index:
  "nthChildElement e (int (length (childElements e)) - 1)
     = (if length (childElements e) = 1 then firstChildElement e else nullElement)
   \<and> childElements (exElement [0, 1])
     = [exElement [0, 1, 0], exElement [0, 1, 2], exElement [0, 1, 4]]
   \<and> nthChildElement (exElement [0, 1]) 0 = exElement [0, 1, 0]
   \<and> nthChildElement (exElement [0, 1]) 1 = exElement [0, 1, 2]
   \<and> nthChildElement (exElement [0, 1]) 2 = nullElement
   \<and> nthChildElement (exElement [0, 1]) (- 1) = exElement [0, 1, 4]
   \<and> nthChildElement (exElement [0, 1]) (- 3) = exElement [0, 1, 0]
   \<and> nthChildElement (exElement [0, 1]) (- 4) = nullElement"
proof -
  have "childElements (exElement [0, 1])
      = [exElement [0, 1, 0], exElement [0, 1, 2], exElement [0, 1, 4]]
    \<and> nthChildElement (exElement [0, 1]) 0 = exElement [0, 1, 0]
    \<and> nthChildElement (exElement [0, 1]) 1 = exElement [0, 1, 2]
    \<and> nthChildElement (exElement [0, 1]) 2 = nullElement
    \<and> nthChildElement (exElement [0, 1]) (- 1) = exElement [0, 1, 4]
    \<and> nthChildElement (exElement [0, 1]) (- 3) = exElement [0, 1, 0]
    \<and> nthChildElement (exElement [0, 1]) (- 4) = nullElement"
    by code_simp
  with nthChildElement_at_last_index [of e] show ?thesis by blast
qed

lemma nthElementByTagName_loop_in_range:
  "0 \<le> i \<Longrightarrow> i < int (length nodes) \<Longrightarrow>
     nthElementByTagName_loop nodes name n i hits \<noteq> Inl IndexOutOfRange"
proof (induction nodes name n i hits rule: nthElementByTagName_loop.induct)
  case (1 nodes name n i hits)
  let ?end = "if n < 0 then 0 else int (length nodes) - 1"
  let ?inc = "if n < 0 then - 1 else (1::int)"
  show ?case
  proof (cases "i = ?end")
    case True
    then show ?thesis by (subst nthElementByTagName_loop.simps) (simp add: Let_def)
  next
    case False
    with "1.prems" have next_in: "0 \<le> i + ?inc" "i + ?inc < int (length nodes)"
      by (auto split: if_splits)
    have range: "\<not> (i < 0 \<or> int (length nodes) \<le> i)" using "1.prems" by simp
    show ?thesis
    proof (cases "tidyNodeGetName (nodes ! nat i) = name")
      case match: True
      show ?thesis
      proof (cases "hits = n")
        case True
        with False range match show ?thesis
          by (subst nthElementByTagName_loop.simps) (simp add: Let_def)
      next
        case hits: False
        from "1.IH"(1) [OF refl refl False range match hits next_in]
        have "nthElementByTagName_loop nodes name n (i + ?inc) (hits + ?inc)
            \<noteq> Inl IndexOutOfRange" .
        with False range match hits show ?thesis
          by (subst nthElementByTagName_loop.simps) (simp add: Let_def)
      qed
    next
      case nomatch: False
      from "1.IH"(2) [OF refl refl False range nomatch next_in]
      have "nthElementByTagName_loop nodes name n (i + ?inc) hits \<noteq> Inl IndexOutOfRange" .
      with False range nomatch show ?thesis
        by (subst nthElementByTagName_loop.simps) (simp add: Let_def)
    qed
  qed
qed

lemma nthElementByTagName_returns:
  "nthElementByTagName e n name \<noteq> Inl IndexOutOfRange"
proof (cases "n = 0 \<or> d_node e = None")
  case True
  then show ?thesis by (auto simp: nthElementByTagName_def)
next
  case False
  then obtain nd where nd: "d_node e = Some nd" and n: "n \<noteq> 0" by auto
  show ?thesis
  proof (cases "allStartNodes nd = []")
    case True
    with nd n show ?thesis by (simp add: nthElementByTagName_def)
  next
    case False
    let ?start = "if n < 0 then int (length (allStartNodes nd)) - 1 else 0"
    from False have "0 \<le> ?start" "?start < int (length (allStartNodes nd))"
      by (auto simp: Suc_leI)
    from nthElementByTagName_loop_in_range [OF this]
    have "nthElementByTagName_loop (allStartNodes nd) name n ?start 0 \<noteq> Inl IndexOutOfRange" .
    with nd n False show ?thesis
      by (auto simp: nthElementByTagName_def Let_def split: sum.splits)
  qed
qed

text \<open>
  C2.  \<open>nthElementByTagName(0, name)\<close> is \<open>firstElementByTagName(name)\<close> for every element,
  and no \<open>n\<close> makes the scan read outside the list of nodes.  The source at an input of
  the claim: below the root of the example the elements named \<open>a\<close> are, in document order,
  the nodes \<open>[0, 1, 2]\<close> and \<open>[0, 1, 4]\<close>; \<open>lastElementByTagName\<close> returns the second,
  \<open>nthElementByTagName(-1, ...)\<close> returns the first (the counter of matches starts at 0 and
  is compared with \<open>n\<close> before it is decremented), and \<open>nthElementByTagName(-2, ...)\<close>
  returns null (the loop stops before it reaches the index \<open>end\<close>).
\<close>

theorem nthElementByTagName_negative_index:
  "nthElementByTagName e 0 name = Inr (firstElementByTagName e name)
   \<and> nthElementByTagName e n name \<noteq> Inl IndexOutOfRange
   \<and> elementsByTagName (exElement []) ''a'' = [exElement [0, 1, 2], exElement [0, 1, 4]]
   \<and> lastElementByTagName (exElement []) ''a'' = exElement [0, 1, 4]
   \<and> nthElementByTagName (exElement []) (- 1) ''a'' = Inr (exElement [0, 1, 2])
   \<and> nthElementByTagName (exElement []) (- 2) ''a'' = Inr nullElement"
proof -
  have "nthElementByTagName e 0 name = Inr (firstElementByTagName e name)"
    by (simp add: nthElementByTagName_def)
  moreover have "elementsByTagName (exElement []) ''a'' = [exElement [0, 1, 2], exElement [0, 1, 4]]"
    by code_simp
  moreover have "lastElementByTagName (exElement []) ''a'' = exElement [0, 1, 4]"
    by code_simp
  moreover have "nthElementByTagName (exElement []) (- 1) ''a'' = Inr (exElement [0, 1, 2])"
    by code_simp
  moreover have "nthElementByTagName (exElement []) (- 2) ''a'' = Inr nullElement"
    by code_simp
  ultimately show ?thesis using nthElementByTagName_returns [of e n name] by blast
qed

section \<open>setContent\<close>

text \<open>
  C4, as the code has it.  \<open>setContent\<close> returns false exactly when the normalizer counts
  at least one error.  Whenever it fails, \<open>hasError()\<close> is true and \<open>errorString()\<close> is the
  text of the normalizer's error buffer, which is not empty, since the normalizer writes a
  diagnostic for every error it counts.  The document keeps the tree that the normalizer
  built: it is not null, \<open>documentElement()\<close> is a non-null view of the root of that tree,
  and \<open>htmlElement()\<close>, \<open>headElement()\<close> and \<open>bodyElement()\<close> are views of the nodes that the
  normalizer's lookups report, null only when a lookup reports none.
\<close>

theorem setContent_failure_keeps_tree:
  "fst (setContent parse contents d) = (tidyErrorCount (parse contents) = 0)
   \<and> hasError (snd (setContent parse contents d)) = (0 < tidyErrorCount (parse contents))
   \<and> (\<not> fst (setContent parse contents d) \<longrightarrow>
        hasError (snd (setContent parse contents d))
      \<and> errorString (snd (setContent parse contents d))
          = (case errorBuffer (parse contents) of None \<Rightarrow> [] | Some bp \<Rightarrow> bp)
      \<and> (writesDiagnostics (parse contents)
            \<longrightarrow> errorString (snd (setContent parse contents d)) \<noteq> [])
      \<and> \<not> doc_isNull (snd (setContent parse contents d))
      \<and> \<not> isNull (documentElement (snd (setContent parse contents d)))
      \<and> documentElement (snd (setContent parse contents d))
          = \<lparr>d_document = Some (parse contents), d_node = Some (docRoot (parse contents), [])\<rparr>
      \<and> d_node (htmlElement (snd (setContent parse contents d)))
          = map_option (Pair (docRoot (parse contents))) (docHtml (parse contents))
      \<and> d_node (headElement (snd (setContent parse contents d)))
          = map_option (Pair (docRoot (parse contents))) (docHead (parse contents))
      \<and> d_node (bodyElement (snd (setContent parse contents d)))
          = map_option (Pair (docRoot (parse contents))) (docBody (parse contents)))"
proof -
  let ?d = "snd (setContent parse contents d)"
  have res: "fst (setContent parse contents d) = (tidyErrorCount (parse contents) = 0)"
    by (simp add: setContent_def Let_def)
  have flag: "hasError ?d = (0 < tidyErrorCount (parse contents))"
    by (simp add: setContent_def Let_def hasError_def)
  have doc: "doc_document ?d = Some (parse contents)"
    by (simp add: setContent_def Let_def)
  have 3: "\<not> doc_isNull ?d"
    using doc by (simp add: doc_isNull_def)
  have 4: "documentElement ?d
      = \<lparr>d_document = Some (parse contents), d_node = Some (docRoot (parse contents), [])\<rparr>"
    using doc by (simp add: documentElement_def accessor_def tidyGetRoot_def)
  have 5: "d_node (htmlElement ?d) = map_option (Pair (docRoot (parse contents))) (docHtml (parse contents))"
    "d_node (headElement ?d) = map_option (Pair (docRoot (parse contents))) (docHead (parse contents))"
    "d_node (bodyElement ?d) = map_option (Pair (docRoot (parse contents))) (docBody (parse contents))"
    using doc
    by (simp_all add: htmlElement_def headElement_def bodyElement_def accessor_def tidyGetHtml_def
        tidyGetHead_def tidyGetBody_def nullElement_def split: option.splits)
  from 4 have 6: "\<not> isNull (documentElement ?d)" by (simp add: isNull_def)
  have failing: "hasError ?d
      \<and> errorString ?d = (case errorBuffer (parse contents) of None \<Rightarrow> [] | Some bp \<Rightarrow> bp)
      \<and> (writesDiagnostics (parse contents) \<longrightarrow> errorString ?d \<noteq> [])"
    if "\<not> fst (setContent parse contents d)"
  proof -
    from that res have err: "0 < tidyErrorCount (parse contents)" by simp
    have 1: "hasError ?d" using err flag by simp
    have 2: "errorString ?d = (case errorBuffer (parse contents) of None \<Rightarrow> [] | Some bp \<Rightarrow> bp)"
      using err by (simp add: setContent_def Let_def errorString_def)
    have "errorString ?d \<noteq> []" if "writesDiagnostics (parse contents)"
      using that err 2 by (auto simp: writesDiagnostics_def split: option.splits)
    with 1 2 show ?thesis by blast
  qed
  from res flag failing 3 4 5 6 show ?thesis by blast
qed

theorem setContent_failure_keeps_tree_witness:
  "\<not> fst (setContent exParse exBadContent newDocument)
   \<and> tidyErrorCount (exParse exBadContent) = 1
   \<and> writesDiagnostics (exParse exBadContent)
   \<and> hasError (snd (setContent exParse exBadContent newDocument))
   \<and> errorString (snd (setContent exParse exBadContent newDocument))
       = ''line 1 column 127 - Error: <foo> is not recognized!''
   \<and> errorString (snd (setContent exParse exBadContent newDocument)) \<noteq> []
   \<and> d_node (bodyElement (snd (setContent exParse exBadContent newDocument))) = Some (exTree, [0, 1])
   \<and> tidyErrorCount (exParse exContent) = 0
   \<and> fst (setContent exParse exContent newDocument)
   \<and> \<not> hasError (snd (setContent exParse exContent newDocument))"
proof -
  have bad: "exParse exBadContent = exErrDoc" by (simp add: exParse_def)
  have good: "exParse exContent = exDoc" by (simp add: exParse_def exContent_def exBadContent_def)
  have c: "tidyErrorCount (exParse exBadContent) = 1" "tidyErrorCount (exParse exContent) = 0"
    by (simp_all add: bad good exErrDoc_def exDoc_def)
  have w: "writesDiagnostics (exParse exBadContent)"
    by (simp add: bad writesDiagnostics_def exErrDoc_def exDoc_def)
  note t = setContent_failure_keeps_tree [of exParse exBadContent newDocument]
  from t c(1) have f: "\<not> fst (setContent exParse exBadContent newDocument)" by simp
  from t f w have 1: "hasError (snd (setContent exParse exBadContent newDocument))"
    "errorString (snd (setContent exParse exBadContent newDocument))
       = ''line 1 column 127 - Error: <foo> is not recognized!''"
    "errorString (snd (setContent exParse exBadContent newDocument)) \<noteq> []"
    "d_node (bodyElement (snd (setContent exParse exBadContent newDocument))) = Some (exTree, [0, 1])"
    by (simp_all add: bad exErrDoc_def exDoc_def)
  from setContent_failure_keeps_tree [of exParse exContent newDocument] c(2)
  have 2: "fst (setContent exParse exContent newDocument)"
    "\<not> hasError (snd (setContent exParse exContent newDocument))"
    by simp_all
  from f c w 1 2 show ?thesis by simp
qed

text \<open>
  C4, as stated, fails on that input: after the failed \<open>setContent\<close> the accessors do not
  return null views.
\<close>

theorem setContent_failure_counterexample:
  "\<not> fst (setContent exParse exBadContent newDocument)
   \<and> \<not> isNull (documentElement (snd (setContent exParse exBadContent newDocument)))
   \<and> \<not> isNull (htmlElement (snd (setContent exParse exBadContent newDocument)))
   \<and> \<not> isNull (headElement (snd (setContent exParse exBadContent newDocument)))
   \<and> \<not> isNull (bodyElement (snd (setContent exParse exBadContent newDocument)))"
  by code_simp

end
